theory Spec2Isabelle
  imports Main "HOL-Library.Word"
begin

section \<open>Memory model\<close>

text \<open>
  The library (\<^verbatim>\<open>symtablelist.c\<close>) is a singly linked list of heap-allocated bindings,
  rooted in a heap-allocated table header. The embedding keeps the pointers: memory is
  an explicit store from addresses to objects, and every C function takes the memory and
  returns the memory it leaves behind.

  \<^item> A pointer is an address or the null pointer (\<open>None\<close>).
  \<^item> An object is a table header, a binding, or a character array.
  \<^item> \<^verbatim>\<open>malloc\<close> takes the next address of a list of available addresses and returns
    the null pointer when that list is exhausted; \<^verbatim>\<open>free\<close> gives the address back.
  \<^item> A failed \<^verbatim>\<open>assert\<close> is the result \<open>Inl AssertFail\<close>; a read or write through a
    pointer that does not point to a live object of the expected type (undefined in C)
    is the result \<open>Inl MemFault\<close>.
  \<^item> The loops follow \<^verbatim>\<open>next\<close> pointers and need not end on a cyclic chain: the
    functions return an \<open>option\<close>, where \<open>None\<close> is a call that never returns.
  \<^item> \<^verbatim>\<open>unsigned int\<close> is 32 bits wide, assertions are compiled in (\<^verbatim>\<open>NDEBUG\<close> is not
    defined), and the \<^verbatim>\<open>int\<close> results, which are only ever 0 or 1, are integers.
\<close>

type_synonym addr = nat
type_synonym ptr = "addr option"

datatype fault = AssertFail | MemFault

text \<open>\<^verbatim>\<open>struct abind { char *key; void *value; struct abind *next; }\<close>\<close>

record abind =
  key :: ptr
  value_p :: ptr
  next_p :: ptr

text \<open>\<^verbatim>\<open>struct SymTable { unsigned int uiSize; struct abind *first; }\<close>, with a 32-bit
  \<^verbatim>\<open>unsigned int\<close>.\<close>

record SymTable =
  uiSize :: "32 word"
  first :: ptr

datatype obj = Table SymTable | Bind abind | Str "char list"

record mem =
  heap :: "addr \<rightharpoonup> obj"
  avail :: "addr list"

definition NUL :: char where
  "NUL = CHR 0x00"

definition malloc :: "mem \<Rightarrow> ptr \<times> mem" where
  "malloc m = (case avail m of [] \<Rightarrow> (None, m) | a # rest \<Rightarrow> (Some a, m\<lparr>avail := rest\<rparr>))"

definition free :: "mem \<Rightarrow> ptr \<Rightarrow> fault + mem" where
  "free m p =
     (case p of
        None \<Rightarrow> Inr m
      | Some a \<Rightarrow>
          (case heap m a of
             None \<Rightarrow> Inl MemFault
           | Some _ \<Rightarrow> Inr (m\<lparr>heap := (heap m)(a := None), avail := a # avail m\<rparr>)))"

definition table_at :: "mem \<Rightarrow> addr \<Rightarrow> fault + SymTable" where
  "table_at m a = (case heap m a of Some (Table T) \<Rightarrow> Inr T | _ \<Rightarrow> Inl MemFault)"

definition bind_at :: "mem \<Rightarrow> addr \<Rightarrow> fault + abind" where
  "bind_at m a = (case heap m a of Some (Bind b) \<Rightarrow> Inr b | _ \<Rightarrow> Inl MemFault)"

definition str_at :: "mem \<Rightarrow> ptr \<Rightarrow> fault + char list" where
  "str_at m p =
     (case p of
        None \<Rightarrow> Inl MemFault
      | Some a \<Rightarrow> (case heap m a of Some (Str bs) \<Rightarrow> Inr bs | _ \<Rightarrow> Inl MemFault))"

subsection \<open>The string functions of the C library\<close>

text \<open>
  The three functions walk the character arrays byte by byte, as the C library does;
  running off the end of an array before its terminator is a memory fault.
  \<^verbatim>\<open>strcmp\<close> is only specified up to the sign of its result.
\<close>

fun strcmp :: "char list \<Rightarrow> char list \<Rightarrow> fault + int" where
  "strcmp [] _ = Inl MemFault"
| "strcmp (a # as) [] = Inl MemFault"
| "strcmp (a # as) (b # bs) =
     (if a \<noteq> b then Inr (if (of_char a :: nat) < of_char b then - 1 else 1)
      else if a = NUL then Inr 0
      else strcmp as bs)"

fun strlen :: "char list \<Rightarrow> fault + nat" where
  "strlen [] = Inl MemFault"
| "strlen (c # cs) =
     (if c = NUL then Inr 0
      else (case strlen cs of Inl e \<Rightarrow> Inl e | Inr n \<Rightarrow> Inr (Suc n)))"

text \<open>\<^verbatim>\<open>strcpy\<close> into a destination of \<open>n\<close> bytes: the bytes of the source up to and
  including its terminator.\<close>

fun strcpy :: "nat \<Rightarrow> char list \<Rightarrow> fault + char list" where
  "strcpy n [] = Inl MemFault"
| "strcpy 0 (c # cs) = Inl MemFault"
| "strcpy (Suc n) (c # cs) =
     (if c = NUL then Inr [c]
      else (case strcpy n cs of Inl e \<Rightarrow> Inl e | Inr d \<Rightarrow> Inr (c # d)))"

definition key_strcmp :: "mem \<Rightarrow> ptr \<Rightarrow> addr \<Rightarrow> fault + int" where
  "key_strcmp m p pcKey =
     (case str_at m p of
        Inl e \<Rightarrow> Inl e
      | Inr s1 \<Rightarrow> (case str_at m (Some pcKey) of Inl e \<Rightarrow> Inl e | Inr s2 \<Rightarrow> strcmp s1 s2))"

section \<open>The functions of the library\<close>

subsection \<open>SymTable_new\<close>

definition SymTable_new :: "mem \<Rightarrow> fault + ptr \<times> mem" where
  "SymTable_new m =
     (case malloc m of
        (None, m1) \<Rightarrow> Inl AssertFail
      | (Some symtable, m1) \<Rightarrow>
          Inr (Some symtable,
               m1\<lparr>heap := (heap m1)(symtable \<mapsto> Table \<lparr>uiSize = 0, first = None\<rparr>)\<rparr>))"

subsection \<open>SymTable_getLength\<close>

definition SymTable_getLength :: "mem \<Rightarrow> ptr \<Rightarrow> fault + 32 word" where
  "SymTable_getLength m oSymTable =
     (case oSymTable of
        None \<Rightarrow> Inl AssertFail
      | Some symtable \<Rightarrow>
          (case table_at m symtable of Inl e \<Rightarrow> Inl e | Inr T \<Rightarrow> Inr (uiSize T)))"

subsection \<open>SymTable_contains\<close>

partial_function (option) contains_loop :: "mem \<Rightarrow> ptr \<Rightarrow> addr \<Rightarrow> (fault + int) option" where
  "contains_loop m ptr pcKey =
     (case ptr of
        None \<Rightarrow> Some (Inr 0)
      | Some a \<Rightarrow>
          (case bind_at m a of
             Inl e \<Rightarrow> Some (Inl e)
           | Inr b \<Rightarrow>
               (case key_strcmp m (key b) pcKey of
                  Inl e \<Rightarrow> Some (Inl e)
                | Inr c \<Rightarrow> if c = 0 then Some (Inr 1) else contains_loop m (next_p b) pcKey)))"

definition SymTable_contains :: "mem \<Rightarrow> ptr \<Rightarrow> ptr \<Rightarrow> (fault + int \<times> mem) option" where
  "SymTable_contains m oSymTable pcKey =
     (case oSymTable of
        None \<Rightarrow> Some (Inl AssertFail)
      | Some symtable \<Rightarrow>
          (case pcKey of
             None \<Rightarrow> Some (Inl AssertFail)
           | Some k \<Rightarrow>
               (case table_at m symtable of
                  Inl e \<Rightarrow> Some (Inl e)
                | Inr T \<Rightarrow>
                    (case contains_loop m (first T) k of
                       None \<Rightarrow> None
                     | Some (Inl e) \<Rightarrow> Some (Inl e)
                     | Some (Inr r) \<Rightarrow> Some (Inr (r, m))))))"

subsection \<open>SymTable_put\<close>

text \<open>The part of the function after the test for an existing binding: the two
  allocations, the copy of the key, and the writes, in the order of the source.\<close>

definition put_new :: "mem \<Rightarrow> addr \<Rightarrow> addr \<Rightarrow> ptr \<Rightarrow> fault + int \<times> mem" where
  "put_new m symtable k pvValue =
     (case malloc m of
        (None, m1) \<Rightarrow> Inl AssertFail
      | (Some new_bind, m1) \<Rightarrow>
          (case str_at m1 (Some k) of
             Inl e \<Rightarrow> Inl e
           | Inr src \<Rightarrow>
               (case strlen src of
                  Inl e \<Rightarrow> Inl e
                | Inr n \<Rightarrow>
                    (case malloc m1 of
                       (None, m2) \<Rightarrow> Inl AssertFail
                     | (Some new_key, m2) \<Rightarrow>
                         (case strcpy (n + 1) src of
                            Inl e \<Rightarrow> Inl e
                          | Inr copy \<Rightarrow>
                              (let m3 = m2\<lparr>heap := (heap m2)(new_key \<mapsto> Str copy)\<rparr> in
                               (case table_at m3 symtable of
                                  Inl e \<Rightarrow> Inl e
                                | Inr T \<Rightarrow>
                                    (let m4 = m3\<lparr>heap := (heap m3)(new_bind \<mapsto>
                                            Bind \<lparr>key = Some new_key, value_p = pvValue,
                                                  next_p = first T\<rparr>)\<rparr> in
                                     (case table_at m4 symtable of
                                        Inl e \<Rightarrow> Inl e
                                      | Inr T1 \<Rightarrow>
                                          (let m5 = m4\<lparr>heap := (heap m4)(symtable \<mapsto>
                                                  Table (T1\<lparr>first := Some new_bind\<rparr>))\<rparr> in
                                           (case table_at m5 symtable of
                                              Inl e \<Rightarrow> Inl e
                                            | Inr T2 \<Rightarrow>
                                                Inr (1, m5\<lparr>heap := (heap m5)(symtable \<mapsto>
                                                  Table (T2\<lparr>uiSize := uiSize T2 + 1\<rparr>))\<rparr>))))))))))))"

definition SymTable_put :: "mem \<Rightarrow> ptr \<Rightarrow> ptr \<Rightarrow> ptr \<Rightarrow> (fault + int \<times> mem) option" where
  "SymTable_put m oSymTable pcKey pvValue =
     (case oSymTable of
        None \<Rightarrow> Some (Inl AssertFail)
      | Some symtable \<Rightarrow>
          (case pcKey of
             None \<Rightarrow> Some (Inl AssertFail)
           | Some k \<Rightarrow>
               (case SymTable_contains m (Some symtable) (Some k) of
                  None \<Rightarrow> None
                | Some (Inl e) \<Rightarrow> Some (Inl e)
                | Some (Inr (found, m0)) \<Rightarrow>
                    if found \<noteq> 0 then Some (Inr (0, m0))
                    else Some (put_new m0 symtable k pvValue))))"

subsection \<open>SymTable_map\<close>

text \<open>
  The function applied to the bindings is the caller's: it receives the key pointer, the
  value pointer and the extra pointer, and may change the memory and the caller's own
  state \<open>'s\<close>. The loop reads \<^verbatim>\<open>ptr->next\<close> from the memory the call leaves behind.
\<close>

type_synonym 's apply_fn = "ptr \<Rightarrow> ptr \<Rightarrow> ptr \<Rightarrow> mem \<times> 's \<Rightarrow> mem \<times> 's"

partial_function (option) map_loop ::
  "'s apply_fn \<Rightarrow> ptr \<Rightarrow> ptr \<Rightarrow> mem \<times> 's \<Rightarrow> (fault + mem \<times> 's) option" where
  "map_loop pfApply pvExtra ptr w =
     (case ptr of
        None \<Rightarrow> Some (Inr w)
      | Some a \<Rightarrow>
          (case bind_at (fst w) a of
             Inl e \<Rightarrow> Some (Inl e)
           | Inr b \<Rightarrow>
               (let w1 = pfApply (key b) (value_p b) pvExtra w in
                (case bind_at (fst w1) a of
                   Inl e \<Rightarrow> Some (Inl e)
                 | Inr b1 \<Rightarrow> map_loop pfApply pvExtra (next_p b1) w1))))"

definition SymTable_map ::
  "mem \<times> 's \<Rightarrow> ptr \<Rightarrow> 's apply_fn option \<Rightarrow> ptr \<Rightarrow> (fault + mem \<times> 's) option" where
  "SymTable_map w oSymTable pfApply pvExtra =
     (case oSymTable of
        None \<Rightarrow> Some (Inl AssertFail)
      | Some symtable \<Rightarrow>
          (case pfApply of
             None \<Rightarrow> Some (Inl AssertFail)
           | Some f \<Rightarrow>
               (case table_at (fst w) symtable of
                  Inl e \<Rightarrow> Some (Inl e)
                | Inr T \<Rightarrow> map_loop f pvExtra (first T) w)))"

subsection \<open>SymTable_get\<close>

partial_function (option) get_loop :: "mem \<Rightarrow> ptr \<Rightarrow> addr \<Rightarrow> (fault + ptr) option" where
  "get_loop m ptr pcKey =
     (case ptr of
        None \<Rightarrow> Some (Inr None)
      | Some a \<Rightarrow>
          (case bind_at m a of
             Inl e \<Rightarrow> Some (Inl e)
           | Inr b \<Rightarrow>
               (case key_strcmp m (key b) pcKey of
                  Inl e \<Rightarrow> Some (Inl e)
                | Inr c \<Rightarrow>
                    if c = 0 then Some (Inr (value_p b)) else get_loop m (next_p b) pcKey)))"

definition SymTable_get :: "mem \<Rightarrow> ptr \<Rightarrow> ptr \<Rightarrow> (fault + ptr \<times> mem) option" where
  "SymTable_get m oSymTable pcKey =
     (case oSymTable of
        None \<Rightarrow> Some (Inl AssertFail)
      | Some symtable \<Rightarrow>
          (case pcKey of
             None \<Rightarrow> Some (Inl AssertFail)
           | Some k \<Rightarrow>
               (case table_at m symtable of
                  Inl e \<Rightarrow> Some (Inl e)
                | Inr T \<Rightarrow>
                    (case get_loop m (first T) k of
                       None \<Rightarrow> None
                     | Some (Inl e) \<Rightarrow> Some (Inl e)
                     | Some (Inr v) \<Rightarrow> Some (Inr (v, m))))))"

subsection \<open>SymTable_remove\<close>

text \<open>The body of the loop once the key is found at binding \<open>a\<close>: unlink, decrement, free.\<close>

definition unlink :: "mem \<Rightarrow> addr \<Rightarrow> addr \<Rightarrow> ptr \<Rightarrow> fault + int \<times> mem" where
  "unlink m symtable a ptr_prev =
     (case table_at m symtable of
        Inl e \<Rightarrow> Inl e
      | Inr T \<Rightarrow>
          (case bind_at m a of
             Inl e \<Rightarrow> Inl e
           | Inr b \<Rightarrow>
               (case (if Some a = first T
                      then Inr (m\<lparr>heap := (heap m)(symtable \<mapsto> Table (T\<lparr>first := next_p b\<rparr>))\<rparr>)
                      else (case ptr_prev of
                              None \<Rightarrow> Inl MemFault
                            | Some p \<Rightarrow>
                                (case bind_at m p of
                                   Inl e \<Rightarrow> Inl e
                                 | Inr bp \<Rightarrow>
                                     Inr (m\<lparr>heap := (heap m)
                                            (p \<mapsto> Bind (bp\<lparr>next_p := next_p b\<rparr>))\<rparr>)))) of
                  Inl e \<Rightarrow> Inl e
                | Inr m1 \<Rightarrow>
                    (case table_at m1 symtable of
                       Inl e \<Rightarrow> Inl e
                     | Inr T1 \<Rightarrow>
                         (let m2 = m1\<lparr>heap := (heap m1)
                                      (symtable \<mapsto> Table (T1\<lparr>uiSize := uiSize T1 - 1\<rparr>))\<rparr> in
                          (case bind_at m2 a of
                             Inl e \<Rightarrow> Inl e
                           | Inr b2 \<Rightarrow>
                               (case free m2 (key b2) of
                                  Inl e \<Rightarrow> Inl e
                                | Inr m3 \<Rightarrow>
                                    (case free m3 (Some a) of
                                       Inl e \<Rightarrow> Inl e
                                     | Inr m4 \<Rightarrow> Inr (1, m4)))))))))"

partial_function (option) remove_loop ::
  "mem \<Rightarrow> addr \<Rightarrow> ptr \<Rightarrow> ptr \<Rightarrow> addr \<Rightarrow> (fault + int \<times> mem) option" where
  "remove_loop m symtable ptr ptr_prev pcKey =
     (case ptr of
        None \<Rightarrow> Some (Inr (0, m))
      | Some a \<Rightarrow>
          (case bind_at m a of
             Inl e \<Rightarrow> Some (Inl e)
           | Inr b \<Rightarrow>
               (case key_strcmp m (key b) pcKey of
                  Inl e \<Rightarrow> Some (Inl e)
                | Inr c \<Rightarrow>
                    if c \<noteq> 0 then remove_loop m symtable (next_p b) (Some a) pcKey
                    else Some (unlink m symtable a ptr_prev))))"

definition SymTable_remove :: "mem \<Rightarrow> ptr \<Rightarrow> ptr \<Rightarrow> (fault + int \<times> mem) option" where
  "SymTable_remove m oSymTable pcKey =
     (case oSymTable of
        None \<Rightarrow> Some (Inl AssertFail)
      | Some symtable \<Rightarrow>
          (case pcKey of
             None \<Rightarrow> Some (Inl AssertFail)
           | Some k \<Rightarrow>
               (case table_at m symtable of
                  Inl e \<Rightarrow> Some (Inl e)
                | Inr T \<Rightarrow> remove_loop m symtable (first T) None k)))"

section \<open>The table as a list of bindings\<close>

text \<open>
  The definitions of this section do not model code: they say what a well-formed table
  is and read an abstract view off the memory, for the statements that follow.
  \<^item> \<open>c_str bs\<close> is the C string held in the character array \<open>bs\<close>: its bytes
    before the first terminator.
  \<^item> \<open>cstring_at h p\<close> is the C string at pointer \<open>p\<close>, when \<open>p\<close> points to a
    terminated character array.
  \<^item> \<open>chain h p as\<close>: following \<^verbatim>\<open>next\<close> from pointer \<open>p\<close> visits the bindings at
    the addresses \<open>as\<close>, in this order, and then reaches the null pointer.
  \<^item> \<open>key_addr\<close>, \<open>value_of\<close>, \<open>next_of\<close> read the three fields of the binding at
    an address; \<open>key_str\<close> is the C string its key pointer points to.
  \<^item> \<open>first_match h as ks\<close> is the first binding of \<open>as\<close> whose key string is \<open>ks\<close>.
\<close>

definition c_str :: "char list \<Rightarrow> char list" where
  "c_str bs = takeWhile (\<lambda>c. c \<noteq> NUL) bs"

definition cstring_at :: "(addr \<rightharpoonup> obj) \<Rightarrow> ptr \<Rightarrow> char list option" where
  "cstring_at h p =
     (case p of
        None \<Rightarrow> None
      | Some a \<Rightarrow>
          (case h a of
             Some (Str bs) \<Rightarrow> if NUL \<in> set bs then Some (c_str bs) else None
           | _ \<Rightarrow> None))"

fun chain :: "(addr \<rightharpoonup> obj) \<Rightarrow> ptr \<Rightarrow> addr list \<Rightarrow> bool" where
  "chain h p [] = (p = None)"
| "chain h p (a # as) =
     (p = Some a \<and> (case h a of Some (Bind b) \<Rightarrow> chain h (next_p b) as | _ \<Rightarrow> False))"

definition key_addr :: "(addr \<rightharpoonup> obj) \<Rightarrow> addr \<Rightarrow> ptr" where
  "key_addr h a = (case h a of Some (Bind b) \<Rightarrow> key b | _ \<Rightarrow> None)"

definition value_of :: "(addr \<rightharpoonup> obj) \<Rightarrow> addr \<Rightarrow> ptr" where
  "value_of h a = (case h a of Some (Bind b) \<Rightarrow> value_p b | _ \<Rightarrow> None)"

definition next_of :: "(addr \<rightharpoonup> obj) \<Rightarrow> addr \<Rightarrow> ptr" where
  "next_of h a = (case h a of Some (Bind b) \<Rightarrow> next_p b | _ \<Rightarrow> None)"

definition key_str :: "(addr \<rightharpoonup> obj) \<Rightarrow> addr \<Rightarrow> char list option" where
  "key_str h a = cstring_at h (key_addr h a)"

definition first_match :: "(addr \<rightharpoonup> obj) \<Rightarrow> addr list \<Rightarrow> char list \<Rightarrow> addr option" where
  "first_match h as ks = find (\<lambda>a. key_str h a = Some ks) as"

text \<open>
  A well-formed table at address \<open>t\<close> with the bindings \<open>as\<close>: the header's
  \<^verbatim>\<open>first\<close> starts a null-terminated chain through \<open>as\<close>; every binding's key points
  to a terminated character array; no two bindings share a key array (each binding owns its
  copy); and the allocator's available addresses are distinct and hold no live object.
  Uniqueness of the key strings and the value of \<^verbatim>\<open>uiSize\<close> are not part of it: they
  are established below for every table built by insertions and removals.
\<close>

definition table_inv :: "mem \<Rightarrow> addr \<Rightarrow> addr list \<Rightarrow> bool" where
  "table_inv m t as \<longleftrightarrow>
     (case heap m t of Some (Table T) \<Rightarrow> chain (heap m) (first T) as | _ \<Rightarrow> False)
     \<and> list_all (\<lambda>a. key_str (heap m) a \<noteq> None) as
     \<and> distinct (map (key_addr (heap m)) as)
     \<and> distinct (avail m)
     \<and> list_all (\<lambda>a. heap m a = None) (avail m)"


text \<open>The memory after a successful insertion of the key string \<open>ks\<close> with the value
  pointer \<open>v\<close>, where \<open>nb\<close> and \<open>nk\<close> are the two addresses \<^verbatim>\<open>malloc\<close> returned.\<close>

definition put_result :: "mem \<Rightarrow> addr \<Rightarrow> SymTable \<Rightarrow> char list \<Rightarrow> ptr \<Rightarrow> addr \<Rightarrow> addr \<Rightarrow> addr list \<Rightarrow> mem" where
  "put_result m t T ks v nb nk rest =
     m\<lparr>heap := (heap m)
          (nk \<mapsto> Str (ks @ [NUL]),
           nb \<mapsto> Bind \<lparr>key = Some nk, value_p = v, next_p = first T\<rparr>,
           t \<mapsto> Table \<lparr>uiSize = uiSize T + 1, first = Some nb\<rparr>),
       avail := rest\<rparr>"

text \<open>The value of \<^verbatim>\<open>ptr_prev\<close> when the loop of \<^verbatim>\<open>SymTable_remove\<close> reaches the
  binding \<open>a\<close> of the chain \<open>as\<close>, entered with \<open>prev\<close>.\<close>

fun pred_in :: "addr list \<Rightarrow> addr \<Rightarrow> ptr \<Rightarrow> ptr" where
  "pred_in [] a prev = prev"
| "pred_in (x # xs) a prev = (if x = a then prev else pred_in xs a (Some x))"

section \<open>A concrete memory\<close>

text \<open>
  The caller's strings \<^verbatim>\<open>"a"\<close>, \<^verbatim>\<open>"b"\<close>, \<^verbatim>\<open>""\<close> and \<^verbatim>\<open>"c"\<close> (the last in a longer
  array) at the addresses 0 to 3, and at address 10 a table of two bindings: \<^verbatim>\<open>"b"\<close>
  with the value pointer 100 at address 11, then \<^verbatim>\<open>"c"\<close> with the null value at address
  13. Three addresses are available to \<^verbatim>\<open>malloc\<close>.
\<close>

definition mem_ex :: mem where
  "mem_ex =
     \<lparr>heap = [0 \<mapsto> Str [CHR ''a'', NUL],
              1 \<mapsto> Str [CHR ''b'', NUL],
              2 \<mapsto> Str [NUL],
              3 \<mapsto> Str [CHR ''c'', NUL, CHR ''z''],
              10 \<mapsto> Table \<lparr>uiSize = 2, first = Some 11\<rparr>,
              11 \<mapsto> Bind \<lparr>key = Some 12, value_p = Some 100, next_p = Some 13\<rparr>,
              12 \<mapsto> Str [CHR ''b'', NUL],
              13 \<mapsto> Bind \<lparr>key = Some 14, value_p = None, next_p = None\<rparr>,
              14 \<mapsto> Str [CHR ''c'', NUL]],
      avail = [20, 21, 22]\<rparr>"

text \<open>A table whose only binding has the empty string as its key; the caller's empty
  string is at address 2.\<close>

definition mem_ex2 :: mem where
  "mem_ex2 =
     \<lparr>heap = [2 \<mapsto> Str [NUL, CHR ''x''],
              10 \<mapsto> Table \<lparr>uiSize = 1, first = Some 11\<rparr>,
              11 \<mapsto> Bind \<lparr>key = Some 12, value_p = Some 100, next_p = None\<rparr>,
              12 \<mapsto> Str [NUL]],
      avail = [20, 21]\<rparr>"

section \<open>Sequences of operations\<close>

text \<open>
  A caller's sequence of insertions and removals on one table: \<open>run\<close> calls
  \<^verbatim>\<open>SymTable_put\<close> and \<^verbatim>\<open>SymTable_remove\<close> in order, each on the memory the previous
  call left, and stops at the first call that fails an assertion, faults or does not
  return.
\<close>

datatype op = Put ptr ptr | Remove ptr

fun run :: "mem \<Rightarrow> ptr \<Rightarrow> op list \<Rightarrow> (fault + mem) option" where
  "run m oSymTable [] = Some (Inr m)"
| "run m oSymTable (Put pcKey pvValue # ops) =
     (case SymTable_put m oSymTable pcKey pvValue of
        None \<Rightarrow> None
      | Some (Inl e) \<Rightarrow> Some (Inl e)
      | Some (Inr (r, m')) \<Rightarrow> run m' oSymTable ops)"
| "run m oSymTable (Remove pcKey # ops) =
     (case SymTable_remove m oSymTable pcKey of
        None \<Rightarrow> None
      | Some (Inl e) \<Rightarrow> Some (Inl e)
      | Some (Inr (r, m')) \<Rightarrow> run m' oSymTable ops)"

text \<open>What holds of every table reached by such a sequence: it is well formed, its key
  strings are pairwise different, and \<^verbatim>\<open>uiSize\<close> is the number of bindings as a 32-bit
  unsigned value.\<close>

definition reach_inv :: "mem \<Rightarrow> addr \<Rightarrow> bool" where
  "reach_inv m t \<longleftrightarrow>
     (\<exists>as T. table_inv m t as \<and> heap m t = Some (Table T)
        \<and> distinct (map (key_str (heap m)) as) \<and> uiSize T = of_nat (length as))"

text \<open>
  A driver in the manner of the repository's test program: create a table, run the
  operations, then ask \<^verbatim>\<open>SymTable_getLength\<close> for the size and count the bindings
  with \<^verbatim>\<open>SymTable_map\<close> and a function that increments a counter.
\<close>

definition count_binding :: "nat apply_fn" where
  "count_binding pcKey pvValue pvExtra w = (fst w, Suc (snd w))"

definition length_and_visits :: "mem \<Rightarrow> op list \<Rightarrow> (32 word \<times> nat) option" where
  "length_and_visits m0 ops =
     (case SymTable_new m0 of
        Inl e \<Rightarrow> None
      | Inr (oSymTable, m1) \<Rightarrow>
          (case run m1 oSymTable ops of
             Some (Inr m) \<Rightarrow>
               (case SymTable_getLength m oSymTable of
                  Inl e \<Rightarrow> None
                | Inr n \<Rightarrow>
                    (case SymTable_map (m, 0) oSymTable (Some count_binding) None of
                       Some (Inr (m', visits)) \<Rightarrow> Some (n, visits)
                     | _ \<Rightarrow> None))
           | _ \<Rightarrow> None))"




text \<open>A small memory with the caller's strings \<^verbatim>\<open>"a"\<close> and \<^verbatim>\<open>"b"\<close>, the memory after
  \<^verbatim>\<open>SymTable_new\<close>, four operations, and the memory after them.\<close>

definition mem_ex0 :: mem where
  "mem_ex0 = \<lparr>heap = [0 \<mapsto> Str [CHR ''a'', NUL], 1 \<mapsto> Str [CHR ''b'', NUL]],
              avail = [10, 11, 12, 13, 14]\<rparr>"

definition mem_ex0_new :: mem where
  "mem_ex0_new = \<lparr>heap = [0 \<mapsto> Str [CHR ''a'', NUL], 1 \<mapsto> Str [CHR ''b'', NUL],
                          10 \<mapsto> Table \<lparr>uiSize = 0, first = None\<rparr>],
                  avail = [11, 12, 13, 14]\<rparr>"

definition ops_ex :: "op list" where
  "ops_ex = [Put (Some 0) (Some 100), Put (Some 1) (Some 101), Put (Some 0) (Some 102),
             Remove (Some 0)]"

definition mem_ex0_final :: mem where
  "mem_ex0_final =
     \<lparr>heap = [0 \<mapsto> Str [CHR ''a'', NUL], 1 \<mapsto> Str [CHR ''b'', NUL],
              14 \<mapsto> Str [CHR ''b'', NUL],
              13 \<mapsto> Bind \<lparr>key = Some 14, value_p = Some 101, next_p = None\<rparr>,
              10 \<mapsto> Table \<lparr>uiSize = 1, first = Some 13\<rparr>],
      avail = [11, 12]\<rparr>"

text \<open>
  A memory with \<open>2 ^ w\<close> pairwise different keys of \<open>w\<close> characters (the binary digits
  of the key's address) and room for \<open>2 ^ w\<close> bindings, and the insertion of the first
  \<open>n\<close> of these keys.
\<close>

definition key_bits :: "nat \<Rightarrow> nat \<Rightarrow> char list" where
  "key_bits w i = map (\<lambda>j. if bit i j then CHR ''1'' else CHR ''0'') [0..<w] @ [NUL]"

definition big_mem :: "nat \<Rightarrow> mem" where
  "big_mem w =
     \<lparr>heap = (\<lambda>a. if a < 2 ^ w then Some (Str (key_bits w a)) else None),
      avail = [2 ^ w ..< 3 * 2 ^ w + 1]\<rparr>"

definition big_ops :: "nat \<Rightarrow> nat \<Rightarrow> op list" where
  "big_ops w n = map (\<lambda>i. Put (Some i) None) [0..<n]"

section \<open>Lemmas\<close>

subsection \<open>Strings\<close>

lemma strcmp_terminated:
  "NUL \<in> set s1 \<Longrightarrow> NUL \<in> set s2 \<Longrightarrow>
   \<exists>r. strcmp s1 s2 = Inr r \<and> (r = 0 \<longleftrightarrow> c_str s1 = c_str s2)"
proof (induction s1 s2 rule: strcmp.induct)
  case (3 a as b bs)
  show ?case
  proof (cases "a = b")
    case False
    then show ?thesis by (auto simp: c_str_def)
  next
    case True
    show ?thesis
    proof (cases "a = NUL")
      case True
      with \<open>a = b\<close> show ?thesis by (simp add: c_str_def)
    next
      case False
      with \<open>a = b\<close> 3 show ?thesis by (auto simp: c_str_def)
    qed
  qed
qed simp_all

lemma strcmp_zero_iff:
  assumes "NUL \<in> set s1" "NUL \<in> set s2"
  shows "strcmp s1 s2 = Inr 0 \<longleftrightarrow> c_str s1 = c_str s2"
  using strcmp_terminated[OF assms] by auto

lemma strcmp_zero_terminated: "strcmp s1 s2 = Inr 0 \<Longrightarrow> NUL \<in> set s2"
  by (induction s1 s2 rule: strcmp.induct) (auto split: if_splits)

lemma strlen_terminated: "NUL \<in> set s \<Longrightarrow> strlen s = Inr (length (c_str s))"
  by (induction s) (auto simp: c_str_def)

lemma strlen_Inr: "strlen s = Inr n \<Longrightarrow> NUL \<in> set s"
  by (induction s arbitrary: n) (auto split: if_splits sum.splits)

lemma strcpy_terminated:
  "NUL \<in> set s \<Longrightarrow> strcpy (length (c_str s) + 1) s = Inr (c_str s @ [NUL])"
  by (induction s) (auto simp: c_str_def)

lemma c_str_no_NUL: "NUL \<notin> set (c_str s)"
  by (induction s) (auto simp: c_str_def)

lemma c_str_append_NUL: "NUL \<notin> set ks \<Longrightarrow> c_str (ks @ [NUL]) = ks"
  by (induction ks) (auto simp: c_str_def)

lemma cstring_atD:
  "cstring_at h (Some k) = Some ks \<Longrightarrow> \<exists>kb. h k = Some (Str kb) \<and> NUL \<in> set kb \<and> ks = c_str kb"
  by (auto simp: cstring_at_def split: option.splits obj.splits if_splits)

subsection \<open>Chains\<close>

lemma chain_frame:
  "chain h p as \<Longrightarrow> \<forall>a \<in> set as. h' a = h a \<Longrightarrow> chain h' p as"
  by (induction as arbitrary: p) (auto split: option.splits obj.splits)

lemma chain_unique: "chain h p as \<Longrightarrow> chain h p bs \<Longrightarrow> as = bs"
proof (induction as arbitrary: p bs)
  case Nil
  then show ?case by (cases bs) auto
next
  case (Cons a as)
  then show ?case by (cases bs) (auto split: option.splits obj.splits)
qed

lemma chain_suffix:
  "chain h p (xs @ a # ys) \<Longrightarrow> chain h (Some a) (a # ys)"
proof (induction xs arbitrary: p)
  case Nil
  then show ?case by simp
next
  case (Cons x xs)
  from Cons.prems obtain b where "h x = Some (Bind b)" "chain h (next_p b) (xs @ a # ys)"
    by (auto split: option.splits obj.splits)
  then show ?case using Cons.IH by blast
qed

lemma chain_head_notin_tail:
  assumes "h a = Some (Bind b)" "chain h (next_p b) as"
  shows "a \<notin> set as"
proof
  assume "a \<in> set as"
  then obtain xs ys where as: "as = xs @ a # ys" by (auto simp: in_set_conv_decomp)
  with assms have "chain h (Some a) (a # ys)" by (auto dest: chain_suffix)
  with assms have "chain h (next_p b) ys" by simp
  with assms(2) have "as = ys" by (rule chain_unique)
  with as show False by simp
qed

lemma chain_distinct: "chain h p as \<Longrightarrow> distinct as"
  by (induction as arbitrary: p)
     (auto split: option.splits obj.splits dest: chain_head_notin_tail)

lemma chain_splice:
  "chain h q (xs @ p # a # ys) \<Longrightarrow> h p = Some (Bind bp) \<Longrightarrow> h a = Some (Bind b) \<Longrightarrow>
   h' p = Some (Bind (bp\<lparr>next_p := next_p b\<rparr>)) \<Longrightarrow>
   \<forall>x \<in> set xs \<union> set ys. h' x = h x \<Longrightarrow> p \<notin> set xs \<Longrightarrow>
   chain h' q (xs @ p # ys)"
proof (induction xs arbitrary: q)
  case Nil
  from Nil.prems(1,2,3) have "chain h (next_p b) ys" by simp
  then have "chain h' (next_p b) ys"
    by (rule chain_frame) (use Nil.prems(5) in simp)
  with Nil show ?case by simp
next
  case (Cons x xs)
  from Cons.prems(1) obtain bx where bx: "q = Some x" "h x = Some (Bind bx)"
      "chain h (next_p bx) (xs @ p # a # ys)"
    by (auto split: option.splits obj.splits)
  have "chain h' (next_p bx) (xs @ p # ys)"
    by (rule Cons.IH[OF bx(3) Cons.prems(2,3,4)]) (use Cons.prems in auto)
  moreover from Cons.prems(5) bx have "h' x = Some (Bind bx)" by simp
  ultimately show ?case using bx by simp
qed

subsection \<open>Well-formed tables\<close>

lemma table_inv_fresh:
  assumes "table_inv m t as" "avail m = nb # nk # rest"
  shows "heap m nb = None" "heap m nk = None" "nb \<noteq> nk" "nb \<notin> set rest" "nk \<notin> set rest"
    "list_all (\<lambda>a. heap m a = None) rest" "distinct rest"
  using assms by (auto simp: table_inv_def)

lemma table_inv_nodes:
  assumes "table_inv m t as" "a \<in> set as"
  shows "\<exists>b ka bs. heap m a = Some (Bind b) \<and> key b = Some ka \<and> heap m ka = Some (Str bs)
           \<and> NUL \<in> set bs \<and> key_str (heap m) a = Some (c_str bs)"
proof -
  from assms have "key_str (heap m) a \<noteq> None" by (auto simp: table_inv_def list_all_iff)
  then show ?thesis
    by (auto simp: key_str_def key_addr_def cstring_at_def split: option.splits obj.splits if_splits)
qed

lemma first_match_Some:
  "first_match h as ks = Some a \<Longrightarrow>
   \<exists>pre post. as = pre @ a # post \<and> key_str h a = Some ks
      \<and> (\<forall>x \<in> set pre. key_str h x \<noteq> Some ks)"
  unfolding first_match_def find_Some_iff
  by (metis id_take_nth_drop in_set_conv_nth length_take min.absorb2 nat_less_le nth_take)

lemma first_match_None: "first_match h as ks = None \<longleftrightarrow> (\<forall>x \<in> set as. key_str h x \<noteq> Some ks)"
  by (auto simp: first_match_def find_None_iff)

subsection \<open>The loops of lookup and traversal\<close>

lemma key_strcmp_ok:
  assumes "heap m a = Some (Bind b)" "key_str (heap m) a = Some s"
    "cstring_at (heap m) (Some k) = Some ks"
  shows "\<exists>r. key_strcmp m (key b) k = Inr r \<and> (r = 0 \<longleftrightarrow> s = ks)"
proof -
  from assms(1,2) obtain ka bs where ka: "key b = Some ka" "heap m ka = Some (Str bs)"
      "NUL \<in> set bs" "s = c_str bs"
    by (auto simp: key_str_def key_addr_def cstring_at_def split: option.splits obj.splits if_splits)
  from assms(3) obtain kb where kb: "heap m k = Some (Str kb)" "NUL \<in> set kb" "ks = c_str kb"
    by (auto simp: cstring_at_def split: option.splits obj.splits if_splits)
  from strcmp_terminated[OF ka(3) kb(2)] obtain r where
    "strcmp bs kb = Inr r" "r = 0 \<longleftrightarrow> c_str bs = c_str kb" by blast
  with ka kb show ?thesis by (simp add: key_strcmp_def str_at_def)
qed

lemma contains_loop_chain:
  assumes "cstring_at (heap m) (Some k) = Some ks"
  shows "chain (heap m) p as \<Longrightarrow> list_all (\<lambda>a. key_str (heap m) a \<noteq> None) as \<Longrightarrow>
    contains_loop m p k =
      Some (Inr (if first_match (heap m) as ks = None then 0 else 1))"
proof (induction as arbitrary: p)
  case Nil
  then show ?case by (simp add: contains_loop.simps first_match_def)
next
  case (Cons a as)
  from Cons.prems obtain b where b: "p = Some a" "heap m a = Some (Bind b)"
      "chain (heap m) (next_p b) as"
    by (auto split: option.splits obj.splits)
  from Cons.prems obtain s where s: "key_str (heap m) a = Some s" by auto
  from key_strcmp_ok[OF b(2) s assms] obtain r where
    r: "key_strcmp m (key b) k = Inr r" "r = 0 \<longleftrightarrow> s = ks" by blast
  from Cons.prems have rest: "list_all (\<lambda>a. key_str (heap m) a \<noteq> None) as" by simp
  show ?case
  proof (cases "s = ks")
    case True
    with b r s show ?thesis
      by (subst contains_loop.simps) (simp add: bind_at_def first_match_def)
  next
    case False
    with b r s Cons.IH[OF b(3) rest] show ?thesis
      by (subst contains_loop.simps) (simp add: bind_at_def first_match_def)
  qed
qed

lemma get_loop_chain:
  assumes "cstring_at (heap m) (Some k) = Some ks"
  shows "chain (heap m) p as \<Longrightarrow> list_all (\<lambda>a. key_str (heap m) a \<noteq> None) as \<Longrightarrow>
    get_loop m p k =
      Some (Inr (case first_match (heap m) as ks of None \<Rightarrow> None
                 | Some a \<Rightarrow> value_of (heap m) a))"
proof (induction as arbitrary: p)
  case Nil
  then show ?case by (simp add: get_loop.simps first_match_def)
next
  case (Cons a as)
  from Cons.prems obtain b where b: "p = Some a" "heap m a = Some (Bind b)"
      "chain (heap m) (next_p b) as"
    by (auto split: option.splits obj.splits)
  from Cons.prems obtain s where s: "key_str (heap m) a = Some s" by auto
  from key_strcmp_ok[OF b(2) s assms] obtain r where
    r: "key_strcmp m (key b) k = Inr r" "r = 0 \<longleftrightarrow> s = ks" by blast
  from Cons.prems have rest: "list_all (\<lambda>a. key_str (heap m) a \<noteq> None) as" by simp
  show ?case
  proof (cases "s = ks")
    case True
    with b r s show ?thesis
      by (subst get_loop.simps) (simp add: bind_at_def first_match_def value_of_def)
  next
    case False
    with b r s Cons.IH[OF b(3) rest] show ?thesis
      by (subst get_loop.simps) (simp add: bind_at_def first_match_def)
  qed
qed

lemma map_loop_chain:
  assumes pure: "\<And>k v e w. fst (f k v e w) = fst w"
  shows "chain (heap (fst w)) p as \<Longrightarrow>
    map_loop f extra p w =
      Some (Inr (foldl (\<lambda>w a. f (key_addr (heap (fst w)) a) (value_of (heap (fst w)) a) extra w) w as))"
proof (induction as arbitrary: p w)
  case Nil
  then show ?case by (simp add: map_loop.simps)
next
  case (Cons a as)
  from Cons.prems obtain b where b: "p = Some a" "heap (fst w) a = Some (Bind b)"
      "chain (heap (fst w)) (next_p b) as"
    by (auto split: option.splits obj.splits)
  let ?w1 = "f (key b) (value_p b) extra w"
  have m1: "fst ?w1 = fst w" by (rule pure)
  with b have "chain (heap (fst ?w1)) (next_p b) as" by simp
  from Cons.IH[OF this] b m1 show ?case
    by (subst map_loop.simps) (simp add: bind_at_def key_addr_def value_of_def Let_def)
qed

lemma SymTable_contains_ok:
  assumes "table_inv m t as" "cstring_at (heap m) (Some k) = Some ks"
  shows "SymTable_contains m (Some t) (Some k) =
           Some (Inr (if first_match (heap m) as ks = None then 0 else 1, m))"
proof -
  from assms(1) obtain T where T: "heap m t = Some (Table T)" "chain (heap m) (first T) as"
    and ks: "list_all (\<lambda>a. key_str (heap m) a \<noteq> None) as"
    by (auto simp: table_inv_def split: option.splits obj.splits)
  from contains_loop_chain[OF assms(2) T(2) ks] T(1) show ?thesis
    by (simp add: SymTable_contains_def table_at_def)
qed

lemma SymTable_contains_mem:
  "SymTable_contains m oSymTable pcKey = Some (Inr (r, m')) \<Longrightarrow> m' = m"
  by (auto simp: SymTable_contains_def split: option.splits sum.splits)

lemma SymTable_get_ok:
  assumes "table_inv m t as" "cstring_at (heap m) (Some k) = Some ks"
  shows "SymTable_get m (Some t) (Some k) =
           Some (Inr (case first_match (heap m) as ks of None \<Rightarrow> None
                      | Some a \<Rightarrow> value_of (heap m) a, m))"
proof -
  from assms(1) obtain T where T: "heap m t = Some (Table T)" "chain (heap m) (first T) as"
    and ks: "list_all (\<lambda>a. key_str (heap m) a \<noteq> None) as"
    by (auto simp: table_inv_def split: option.splits obj.splits)
  from get_loop_chain[OF assms(2) T(2) ks] T(1) show ?thesis
    by (simp add: SymTable_get_def table_at_def)
qed







subsection \<open>Insertion\<close>

lemma put_new_ok:
  assumes t: "heap m t = Some (Table T)"
    and k: "cstring_at (heap m) (Some k) = Some ks"
    and av: "avail m = nb # nk # rest"
    and fresh: "heap m nb = None" "heap m nk = None" "nb \<noteq> nk"
  shows "put_new m t k v = Inr (1, put_result m t T ks v nb nk rest)"
proof -
  from cstring_atD[OF k] obtain kb where kb: "heap m k = Some (Str kb)" "NUL \<in> set kb" "ks = c_str kb"
    by blast
  from t fresh have ne: "t \<noteq> nb" "t \<noteq> nk" by auto
  have len: "strlen kb = Inr (length (c_str kb))" using kb(2) by (rule strlen_terminated)
  have cpy: "strcpy (length (c_str kb) + 1) kb = Inr (c_str kb @ [NUL])"
    using kb(2) by (rule strcpy_terminated)
  show ?thesis
    unfolding put_new_def put_result_def
    using t kb av ne fresh len cpy
    by (cases T) (simp add: malloc_def str_at_def table_at_def Let_def)
qed

lemma put_new_Inr:
  assumes "put_new m t k v = Inr (r, m')"
  shows "\<exists>nb nk rest ks. avail m = nb # nk # rest \<and> cstring_at (heap m) (Some k) = Some ks"
proof -
  from assms obtain nb r1 where av1: "avail m = nb # r1"
    by (cases "avail m") (auto simp: put_new_def malloc_def)
  from assms av1 obtain src where src: "heap m k = Some (Str src)"
    by (auto simp: put_new_def malloc_def str_at_def split: option.splits obj.splits)
  from assms av1 src obtain n where n: "strlen src = Inr n"
    by (auto simp: put_new_def malloc_def str_at_def split: sum.splits)
  from assms av1 src n obtain nk rest where av2: "r1 = nk # rest"
    by (cases r1) (auto simp: put_new_def malloc_def str_at_def)
  from strlen_Inr[OF n] src have "cstring_at (heap m) (Some k) = Some (c_str src)"
    by (simp add: cstring_at_def)
  with av1 av2 show ?thesis by blast
qed

lemma put_result_inv:
  assumes inv: "table_inv m t as" and t: "heap m t = Some (Table T)"
    and av: "avail m = nb # nk # rest"
  shows "table_inv (put_result m t T ks v nb nk rest) t (nb # as)"
proof -
  let ?m' = "put_result m t T ks v nb nk rest"
  note fr = table_inv_fresh[OF inv av]
  from t fr have ne: "t \<noteq> nb" "t \<noteq> nk" by auto
  have node: "\<And>a. a \<in> set as \<Longrightarrow> heap ?m' a = heap m a \<and> a \<noteq> nb \<and> a \<noteq> nk"
  proof -
    fix a assume "a \<in> set as"
    from table_inv_nodes[OF inv this] obtain b where b: "heap m a = Some (Bind b)" by blast
    with t fr show "heap ?m' a = heap m a \<and> a \<noteq> nb \<and> a \<noteq> nk" by (auto simp: put_result_def)
  qed
  have keyblk: "\<And>a. a \<in> set as \<Longrightarrow> key_addr (heap ?m') a = key_addr (heap m) a
      \<and> key_str (heap ?m') a = key_str (heap m) a \<and> key_addr (heap m) a \<noteq> Some nk"
  proof -
    fix a assume a: "a \<in> set as"
    from table_inv_nodes[OF inv a] obtain b ka bs where b: "heap m a = Some (Bind b)"
      "key b = Some ka" "heap m ka = Some (Str bs)" by blast
    with t fr have "heap ?m' ka = heap m ka" "ka \<noteq> nk" by (auto simp: put_result_def)
    with node[OF a] b show "key_addr (heap ?m') a = key_addr (heap m) a
      \<and> key_str (heap ?m') a = key_str (heap m) a \<and> key_addr (heap m) a \<noteq> Some nk"
      by (simp add: key_addr_def key_str_def cstring_at_def)
  qed
  from inv t have ch: "chain (heap m) (first T) as" by (simp add: table_inv_def)
  have ch': "chain (heap ?m') (first T) as"
    by (rule chain_frame[OF ch]) (simp add: node)
  have hd: "heap ?m' nb = Some (Bind \<lparr>key = Some nk, value_p = v, next_p = first T\<rparr>)"
    using ne by (simp add: put_result_def)
  have tb: "heap ?m' t = Some (Table \<lparr>uiSize = uiSize T + 1, first = Some nb\<rparr>)"
    by (simp add: put_result_def)
  have knew: "key_addr (heap ?m') nb = Some nk" using hd by (simp add: key_addr_def)
  have snew: "key_str (heap ?m') nb \<noteq> None"
    using knew ne fr by (simp add: key_str_def cstring_at_def put_result_def)
  have c1: "(case heap ?m' t of Some (Table T) \<Rightarrow> chain (heap ?m') (first T) (nb # as) | _ \<Rightarrow> False)"
    using tb hd ch' by simp
  have c2: "list_all (\<lambda>a. key_str (heap ?m') a \<noteq> None) (nb # as)"
    using snew keyblk inv by (auto simp: table_inv_def list_all_iff)
  have meq: "map (key_addr (heap ?m')) as = map (key_addr (heap m)) as"
    using keyblk by simp
  have "Some nk \<notin> set (map (key_addr (heap m)) as)"
  proof
    assume "Some nk \<in> set (map (key_addr (heap m)) as)"
    then obtain x where "x \<in> set as" "key_addr (heap m) x = Some nk" by auto
    with keyblk[of x] show False by simp
  qed
  then have c3: "distinct (map (key_addr (heap ?m')) (nb # as))"
    using knew inv unfolding table_inv_def by (simp add: meq)
  have c4: "distinct (avail ?m')" using fr by (simp add: put_result_def)
  have c5: "list_all (\<lambda>a. heap ?m' a = None) (avail ?m')"
  proof -
    have "\<And>x. x \<in> set rest \<Longrightarrow> heap ?m' x = None"
    proof -
      fix x assume x: "x \<in> set rest"
      with fr have "heap m x = None" "x \<noteq> nb" "x \<noteq> nk" by (auto simp: list_all_iff)
      with t show "heap ?m' x = None" by (auto simp: put_result_def)
    qed
    then show ?thesis by (simp add: list_all_iff put_result_def)
  qed
  from c1 c2 c3 c4 c5 show ?thesis unfolding table_inv_def by blast
qed

lemma put_result_old:
  assumes inv: "table_inv m t as" and t: "heap m t = Some (Table T)"
    and av: "avail m = nb # nk # rest" and a: "a \<in> set as"
  shows "key_str (heap (put_result m t T ks v nb nk rest)) a = key_str (heap m) a"
    and "value_of (heap (put_result m t T ks v nb nk rest)) a = value_of (heap m) a"
    and "key_addr (heap (put_result m t T ks v nb nk rest)) a = key_addr (heap m) a"
proof -
  let ?m' = "put_result m t T ks v nb nk rest"
  note fr = table_inv_fresh[OF inv av]
  from table_inv_nodes[OF inv a] obtain b ka bs where b: "heap m a = Some (Bind b)"
    "key b = Some ka" "heap m ka = Some (Str bs)" by blast
  with t fr have "heap ?m' ka = heap m ka" "heap ?m' a = heap m a"
    by (auto simp: put_result_def)
  with b show "key_str (heap ?m') a = key_str (heap m) a"
    and "value_of (heap ?m') a = value_of (heap m) a"
    and "key_addr (heap ?m') a = key_addr (heap m) a"
    by (simp_all add: key_addr_def key_str_def cstring_at_def value_of_def)
qed

lemma put_result_new:
  assumes inv: "table_inv m t as" and t: "heap m t = Some (Table T)"
    and k: "cstring_at (heap m) (Some k) = Some ks"
    and av: "avail m = nb # nk # rest"
  shows "heap (put_result m t T ks v nb nk rest) nk = Some (Str (ks @ [NUL]))"
    and "heap (put_result m t T ks v nb nk rest) nb =
           Some (Bind \<lparr>key = Some nk, value_p = v, next_p = first T\<rparr>)"
    and "heap (put_result m t T ks v nb nk rest) t =
           Some (Table \<lparr>uiSize = uiSize T + 1, first = Some nb\<rparr>)"
    and "key_str (heap (put_result m t T ks v nb nk rest)) nb = Some ks"
    and "value_of (heap (put_result m t T ks v nb nk rest)) nb = v"
    and "nk \<noteq> k" and "heap (put_result m t T ks v nb nk rest) k = heap m k"
    and "cstring_at (heap (put_result m t T ks v nb nk rest)) (Some k) = Some ks"
    and "avail (put_result m t T ks v nb nk rest) = rest"
    and "\<forall>x. x \<noteq> nk \<longrightarrow> x \<noteq> nb \<longrightarrow> x \<noteq> t \<longrightarrow> heap (put_result m t T ks v nb nk rest) x = heap m x"
proof -
  let ?m' = "put_result m t T ks v nb nk rest"
  note fr = table_inv_fresh[OF inv av]
  from t fr have ne: "t \<noteq> nb" "t \<noteq> nk" by auto
  from cstring_atD[OF k] obtain kb where kb: "heap m k = Some (Str kb)" "NUL \<in> set kb"
    "ks = c_str kb" by blast
  from kb fr t have kne: "k \<noteq> nk" "k \<noteq> nb" "k \<noteq> t" by auto
  then show "nk \<noteq> k" by simp
  show nk: "heap ?m' nk = Some (Str (ks @ [NUL]))" using ne fr by (simp add: put_result_def)
  show nb: "heap ?m' nb = Some (Bind \<lparr>key = Some nk, value_p = v, next_p = first T\<rparr>)"
    using ne by (simp add: put_result_def)
  show "heap ?m' t = Some (Table \<lparr>uiSize = uiSize T + 1, first = Some nb\<rparr>)"
    by (simp add: put_result_def)
  have "NUL \<notin> set ks" using kb(3) by (simp add: c_str_no_NUL)
  then have "c_str (ks @ [NUL]) = ks" by (rule c_str_append_NUL)
  with nk nb show "key_str (heap ?m') nb = Some ks"
    by (simp add: key_str_def key_addr_def cstring_at_def)
  show "value_of (heap ?m') nb = v" using nb by (simp add: value_of_def)
  show hk: "heap ?m' k = heap m k" using kne by (simp add: put_result_def)
  show "cstring_at (heap ?m') (Some k) = Some ks" using k hk by (simp add: cstring_at_def)
  show "avail ?m' = rest" by (simp add: put_result_def)
  show "\<forall>x. x \<noteq> nk \<longrightarrow> x \<noteq> nb \<longrightarrow> x \<noteq> t \<longrightarrow> heap ?m' x = heap m x"
    by (simp add: put_result_def)
qed

lemma SymTable_put_fresh:
  assumes inv: "table_inv m t as" and t: "heap m t = Some (Table T)"
    and k: "cstring_at (heap m) (Some k) = Some ks"
    and fm: "first_match (heap m) as ks = None"
    and av: "avail m = nb # nk # rest"
  shows "SymTable_put m (Some t) (Some k) v = Some (Inr (1, put_result m t T ks v nb nk rest))"
proof -
  note fr = table_inv_fresh[OF inv av]
  from SymTable_contains_ok[OF inv k] fm
  have "SymTable_contains m (Some t) (Some k) = Some (Inr (0, m))" by simp
  with put_new_ok[OF t k av fr(1,2,3)] show ?thesis by (simp add: SymTable_put_def)
qed

lemma SymTable_put_dup:
  assumes inv: "table_inv m t as"
    and k: "cstring_at (heap m) (Some k) = Some ks"
    and fm: "first_match (heap m) as ks = Some a"
  shows "SymTable_put m (Some t) (Some k) v = Some (Inr (0, m))"
proof -
  from SymTable_contains_ok[OF inv k] fm
  have "SymTable_contains m (Some t) (Some k) = Some (Inr (1, m))" by simp
  then show ?thesis by (simp add: SymTable_put_def)
qed

lemma first_match_put_result:
  assumes inv: "table_inv m t as" and t: "heap m t = Some (Table T)"
    and k: "cstring_at (heap m) (Some k) = Some ks"
    and av: "avail m = nb # nk # rest"
  shows "first_match (heap (put_result m t T ks v nb nk rest)) (nb # as) ks = Some nb"
    and "ks' \<noteq> ks \<Longrightarrow> first_match (heap (put_result m t T ks v nb nk rest)) (nb # as) ks' =
           first_match (heap m) as ks'"
proof -
  let ?m' = "put_result m t T ks v nb nk rest"
  from put_result_new(4)[OF inv t k av] have kn: "key_str (heap ?m') nb = Some ks" .
  then show "first_match (heap ?m') (nb # as) ks = Some nb" by (simp add: first_match_def)
  have "find (\<lambda>a. key_str (heap ?m') a = Some ks') as = find (\<lambda>a. key_str (heap m) a = Some ks') as"
    by (rule find_cong) (simp_all add: put_result_old[OF inv t av])
  then show "ks' \<noteq> ks \<Longrightarrow> first_match (heap ?m') (nb # as) ks' = first_match (heap m) as ks'"
    using kn by (simp add: first_match_def)
qed

subsection \<open>Removal\<close>

lemma remove_loop_scan:
  assumes "cstring_at (heap m) (Some k) = Some ks"
  shows "chain (heap m) p as \<Longrightarrow> list_all (\<lambda>a. key_str (heap m) a \<noteq> None) as \<Longrightarrow>
    remove_loop m t p prev k =
      (case first_match (heap m) as ks of
         None \<Rightarrow> Some (Inr (0, m))
       | Some a \<Rightarrow> Some (unlink m t a (pred_in as a prev)))"
proof (induction as arbitrary: p prev)
  case Nil
  then show ?case by (simp add: remove_loop.simps first_match_def)
next
  case (Cons x xs)
  from Cons.prems obtain b where b: "p = Some x" "heap m x = Some (Bind b)"
      "chain (heap m) (next_p b) xs"
    by (auto split: option.splits obj.splits)
  from Cons.prems obtain s where s: "key_str (heap m) x = Some s" by auto
  from key_strcmp_ok[OF b(2) s assms] obtain r where
    r: "key_strcmp m (key b) k = Inr r" "r = 0 \<longleftrightarrow> s = ks" by blast
  from Cons.prems have rest: "list_all (\<lambda>a. key_str (heap m) a \<noteq> None) xs" by simp
  show ?case
  proof (cases "s = ks")
    case True
    with b r s show ?thesis
      by (subst remove_loop.simps) (simp add: bind_at_def first_match_def)
  next
    case False
    have fm: "first_match (heap m) (x # xs) ks = first_match (heap m) xs ks"
      using False s by (simp add: first_match_def)
    have pr: "\<And>a. first_match (heap m) xs ks = Some a \<Longrightarrow>
        pred_in (x # xs) a prev = pred_in xs a (Some x)"
    proof -
      fix a assume "first_match (heap m) xs ks = Some a"
      from first_match_Some[OF this] have "key_str (heap m) a = Some ks" by blast
      with s False have "x \<noteq> a" by auto
      then show "pred_in (x # xs) a prev = pred_in xs a (Some x)" by simp
    qed
    have "remove_loop m t p prev k = remove_loop m t (next_p b) (Some x) k"
      using b r False by (subst remove_loop.simps) (simp add: bind_at_def)
    also have "\<dots> = (case first_match (heap m) xs ks of
         None \<Rightarrow> Some (Inr (0, m))
       | Some a \<Rightarrow> Some (unlink m t a (pred_in xs a (Some x))))"
      by (rule Cons.IH[OF b(3) rest])
    finally show ?thesis using pr by (simp add: fm split: option.splits)
  qed
qed

lemma remove_loop_invalid_key:
  assumes "cstring_at (heap m) (Some k) = None"
  shows "chain (heap m) p as \<Longrightarrow> list_all (\<lambda>a. key_str (heap m) a \<noteq> None) as \<Longrightarrow>
    remove_loop m t p prev k = Some (Inr (r, m')) \<Longrightarrow> m' = m"
proof (induction as arbitrary: p prev)
  case Nil
  then show ?case by (simp add: remove_loop.simps)
next
  case (Cons x xs)
  from Cons.prems obtain b where b: "p = Some x" "heap m x = Some (Bind b)"
      "chain (heap m) (next_p b) xs"
    by (auto split: option.splits obj.splits)
  from Cons.prems have rest: "list_all (\<lambda>a. key_str (heap m) a \<noteq> None) xs" by simp
  from Cons.prems(3) b obtain c where c: "key_strcmp m (key b) k = Inr c"
    by (subst (asm) remove_loop.simps) (auto simp: bind_at_def split: sum.splits)
  have "c \<noteq> 0"
  proof
    assume "c = 0"
    with c obtain s1 s2 where "heap m k = Some (Str s2)" "strcmp s1 s2 = Inr 0"
      by (auto simp: key_strcmp_def str_at_def split: sum.splits option.splits obj.splits)
    with strcmp_zero_terminated[of s1 s2] assms show False
      by (simp add: cstring_at_def)
  qed
  with Cons.prems(3) b c have "remove_loop m t (next_p b) (Some x) k = Some (Inr (r, m'))"
    by (subst (asm) remove_loop.simps) (simp add: bind_at_def)
  from Cons.IH[OF b(3) rest this] show ?case .
qed

lemma pred_in_inner:
  "a \<notin> set xs \<Longrightarrow> a \<noteq> p \<Longrightarrow> pred_in (xs @ p # a # ys) a prev = Some p"
  by (induction xs arbitrary: prev) auto

lemma unlink_head:
  assumes "heap m t = Some (Table T)" "first T = Some a" "heap m a = Some (Bind b)"
    "key b = Some ka" "heap m ka = Some (Str bs)"
  shows "unlink m t a prev =
    Inr (1, m\<lparr>heap := (heap m)(t \<mapsto> Table (T\<lparr>first := next_p b, uiSize := uiSize T - 1\<rparr>),
                               ka := None, a := None),
              avail := a # ka # avail m\<rparr>)"
proof -
  from assms have ne: "t \<noteq> a" "t \<noteq> ka" "a \<noteq> ka" by auto
  show ?thesis
    unfolding unlink_def using assms ne
    by (simp add: table_at_def bind_at_def free_def Let_def)
qed

lemma unlink_inner:
  assumes "heap m t = Some (Table T)" "first T \<noteq> Some a" "heap m a = Some (Bind b)"
    "key b = Some ka" "heap m ka = Some (Str bs)" "heap m p = Some (Bind bp)" "p \<noteq> a"
  shows "unlink m t a (Some p) =
    Inr (1, m\<lparr>heap := (heap m)(p \<mapsto> Bind (bp\<lparr>next_p := next_p b\<rparr>),
                               t \<mapsto> Table (T\<lparr>uiSize := uiSize T - 1\<rparr>),
                               ka := None, a := None),
              avail := a # ka # avail m\<rparr>)"
proof -
  from assms have ne: "t \<noteq> a" "t \<noteq> ka" "a \<noteq> ka" "p \<noteq> t" "p \<noteq> ka" by auto
  show ?thesis
    unfolding unlink_def using assms ne
    by (simp add: table_at_def bind_at_def free_def Let_def)
qed

lemma removed_inv:
  assumes inv: "table_inv m t as" and as: "as = pre @ a # post"
    and a: "heap m a = Some (Bind b)" "key b = Some ka" "heap m ka = Some (Str bs)"
    and T: "heap m t = Some (Table T)"
    and A1: "heap m' t = Some (Table T')" "chain (heap m') (first T') (pre @ post)"
    and A2: "\<And>x. x \<noteq> t \<Longrightarrow> x \<noteq> a \<Longrightarrow> x \<noteq> ka \<Longrightarrow> x \<notin> set pre \<Longrightarrow> heap m' x = heap m x"
    and A3: "\<And>x. x \<in> set pre \<Longrightarrow> \<exists>bx bx'. heap m x = Some (Bind bx) \<and> heap m' x = Some (Bind bx')
                \<and> key bx' = key bx \<and> value_p bx' = value_p bx"
    and A4: "heap m' a = None" "heap m' ka = None" "avail m' = a # ka # avail m"
  shows "table_inv m' t (pre @ post)"
    and "\<forall>x \<in> set (pre @ post). key_addr (heap m') x = key_addr (heap m) x
            \<and> key_str (heap m') x = key_str (heap m) x
            \<and> value_of (heap m') x = value_of (heap m) x"
proof -
  from inv T have ch: "chain (heap m) (first T) as" by (simp add: table_inv_def)
  then have dist: "distinct as" by (rule chain_distinct)
  from inv have dk: "distinct (map (key_addr (heap m)) as)" by (simp add: table_inv_def)
  have ka_a: "key_addr (heap m) a = Some ka" using a by (simp add: key_addr_def)
  have node: "\<And>x. x \<in> set (pre @ post) \<Longrightarrow>
      key_addr (heap m') x = key_addr (heap m) x \<and> value_of (heap m') x = value_of (heap m) x
      \<and> key_str (heap m') x = key_str (heap m) x \<and> key_addr (heap m) x \<noteq> Some ka"
  proof -
    fix x assume x: "x \<in> set (pre @ post)"
    then have xin: "x \<in> set as" using as by auto
    from table_inv_nodes[OF inv xin] obtain bx kx cs where bx: "heap m x = Some (Bind bx)"
      "key bx = Some kx" "heap m kx = Some (Str cs)" by blast
    from x dist as have xa: "x \<noteq> a" by auto
    have kxka: "kx \<noteq> ka"
    proof
      assume "kx = ka"
      with bx ka_a have "key_addr (heap m) x = key_addr (heap m) a" by (simp add: key_addr_def)
      moreover from dk have "inj_on (key_addr (heap m)) (set as)" by (simp add: distinct_map)
      moreover have "a \<in> set as" using as by simp
      ultimately have "x = a" using xin by (rule_tac inj_onD)
      with xa show False by simp
    qed
    have kx_pre: "kx \<notin> set pre"
    proof
      assume "kx \<in> set pre"
      from A3[OF this] bx show False by auto
    qed
    from bx a T have "kx \<noteq> t" "kx \<noteq> a" by auto
    with kxka kx_pre have hk: "heap m' kx = heap m kx" by (simp add: A2)
    have hx: "\<exists>bx'. heap m' x = Some (Bind bx') \<and> key bx' = key bx \<and> value_p bx' = value_p bx"
    proof (cases "x \<in> set pre")
      case True
      from A3[OF this] bx show ?thesis by auto
    next
      case False
      from bx a T have "x \<noteq> t" "x \<noteq> ka" by auto
      with False xa bx show ?thesis by (simp add: A2)
    qed
    with bx hk kxka show "key_addr (heap m') x = key_addr (heap m) x
      \<and> value_of (heap m') x = value_of (heap m) x
      \<and> key_str (heap m') x = key_str (heap m) x \<and> key_addr (heap m) x \<noteq> Some ka"
      by (auto simp: key_addr_def value_of_def key_str_def cstring_at_def)
  qed
  then show "\<forall>x \<in> set (pre @ post). key_addr (heap m') x = key_addr (heap m) x
            \<and> key_str (heap m') x = key_str (heap m) x
            \<and> value_of (heap m') x = value_of (heap m) x" by blast
  have c1: "(case heap m' t of Some (Table T) \<Rightarrow> chain (heap m') (first T) (pre @ post) | _ \<Rightarrow> False)"
    using A1 by simp
  have c2: "list_all (\<lambda>x. key_str (heap m') x \<noteq> None) (pre @ post)"
  proof -
    have "\<And>x. x \<in> set (pre @ post) \<Longrightarrow> key_str (heap m') x \<noteq> None"
    proof -
      fix x assume x: "x \<in> set (pre @ post)"
      with as inv have "key_str (heap m) x \<noteq> None" by (auto simp: table_inv_def list_all_iff)
      with node[OF x] show "key_str (heap m') x \<noteq> None" by simp
    qed
    then show ?thesis unfolding list_all_iff by blast
  qed
  have meq: "map (key_addr (heap m')) (pre @ post) = map (key_addr (heap m)) (pre @ post)"
    using node by (intro map_cong) auto
  have "distinct (map (key_addr (heap m)) (pre @ post))"
    using dk as by simp
  then have c3: "distinct (map (key_addr (heap m')) (pre @ post))"
    by (simp only: meq)
  have av: "\<And>x. x \<in> set (avail m) \<Longrightarrow> heap m x = None"
    using inv by (simp add: table_inv_def list_all_iff)
  have c4: "distinct (avail m')"
  proof -
    from av a have "a \<notin> set (avail m)" "ka \<notin> set (avail m)" by auto
    moreover from a have "a \<noteq> ka" by auto
    moreover from inv have "distinct (avail m)" by (simp add: table_inv_def)
    ultimately show ?thesis by (simp add: A4)
  qed
  have c5: "list_all (\<lambda>x. heap m' x = None) (avail m')"
  proof -
    have "\<And>x. x \<in> set (avail m) \<Longrightarrow> heap m' x = None"
    proof -
      fix x assume x: "x \<in> set (avail m)"
      then have hx: "heap m x = None" by (rule av)
      with T have "x \<noteq> t" by auto
      moreover have "x \<notin> set pre"
      proof
        assume "x \<in> set pre"
        from A3[OF this] hx show False by auto
      qed
      ultimately show "heap m' x = None" using hx A2[of x] A4(1,2) by (cases "x = a \<or> x = ka") auto
    qed
    then show ?thesis by (simp add: A4 list_all_iff)
  qed
  from c1 c2 c3 c4 c5 show "table_inv m' t (pre @ post)" unfolding table_inv_def by blast
qed

lemma SymTable_remove_found:
  assumes inv: "table_inv m t as" and T: "heap m t = Some (Table T)"
    and k: "cstring_at (heap m) (Some k) = Some ks"
    and fm: "first_match (heap m) as ks = Some a"
  shows "\<exists>m' T' pre post ka.
      SymTable_remove m (Some t) (Some k) = Some (Inr (1, m'))
      \<and> as = pre @ a # post \<and> remove1 a as = pre @ post
      \<and> key_str (heap m) a = Some ks \<and> (\<forall>x \<in> set pre. key_str (heap m) x \<noteq> Some ks)
      \<and> table_inv m' t (pre @ post)
      \<and> heap m' t = Some (Table T') \<and> uiSize T' = uiSize T - 1
      \<and> first T' = (if pre = [] then next_of (heap m) a else first T)
      \<and> (pre \<noteq> [] \<longrightarrow> next_of (heap m') (last pre) = next_of (heap m) a)
      \<and> (\<forall>x \<in> set (pre @ post). key_addr (heap m') x = key_addr (heap m) x
            \<and> key_str (heap m') x = key_str (heap m) x
            \<and> value_of (heap m') x = value_of (heap m) x)
      \<and> key_addr (heap m) a = Some ka
      \<and> heap m' a = None \<and> heap m' ka = None \<and> avail m' = a # ka # avail m
      \<and> (\<forall>x. x \<noteq> t \<longrightarrow> x \<noteq> a \<longrightarrow> x \<noteq> ka \<longrightarrow> x \<notin> set pre \<longrightarrow> heap m' x = heap m x)"
proof -
  from first_match_Some[OF fm] obtain pre post where as: "as = pre @ a # post"
    and fmk: "key_str (heap m) a = Some ks" "\<forall>x \<in> set pre. key_str (heap m) x \<noteq> Some ks"
    by blast
  from inv T have ch: "chain (heap m) (first T) as" by (simp add: table_inv_def)
  then have dist: "distinct as" by (rule chain_distinct)
  have rm: "remove1 a as = pre @ post"
    using dist as by (simp add: remove1_append)
  from inv have valid: "list_all (\<lambda>a. key_str (heap m) a \<noteq> None) as"
    by (simp add: table_inv_def)
  have ain: "a \<in> set as" using as by simp
  from table_inv_nodes[OF inv ain] obtain b ka bs where a: "heap m a = Some (Bind b)"
    "key b = Some ka" "heap m ka = Some (Str bs)" by blast
  have ka: "key_addr (heap m) a = Some ka" using a by (simp add: key_addr_def)
  have nx: "next_of (heap m) a = next_p b" using a by (simp add: next_of_def)
  have scan: "SymTable_remove m (Some t) (Some k) = Some (unlink m t a (pred_in as a None))"
    using remove_loop_scan[OF k ch valid, of t None] T fm
    by (simp add: SymTable_remove_def table_at_def)
  have types: "\<And>x. x \<in> set as \<Longrightarrow> x \<noteq> t \<and> x \<noteq> ka"
  proof -
    fix x assume "x \<in> set as"
    from table_inv_nodes[OF inv this] T a show "x \<noteq> t \<and> x \<noteq> ka" by auto
  qed
  show ?thesis
  proof (cases pre rule: rev_cases)
    case Nil
    with as have as': "as = a # post" by simp
    with ch have fT: "first T = Some a" by simp
    define m' where "m' = m\<lparr>heap := (heap m)(t \<mapsto> Table (T\<lparr>first := next_p b, uiSize := uiSize T - 1\<rparr>),
                               ka := None, a := None),
              avail := a # ka # avail m\<rparr>"
    have res: "SymTable_remove m (Some t) (Some k) = Some (Inr (1, m'))"
      using scan unlink_head[OF T fT a] by (simp add: m'_def)
    from T a have ne: "t \<noteq> a" "t \<noteq> ka" "a \<noteq> ka" by auto
    have ht: "heap m' t = Some (Table (T\<lparr>first := next_p b, uiSize := uiSize T - 1\<rparr>))"
      using ne by (simp add: m'_def)
    from ch as' a have "chain (heap m) (next_p b) post" by simp
    then have ch': "chain (heap m') (next_p b) post"
    proof (rule chain_frame)
      show "\<forall>x\<in>set post. heap m' x = heap m x"
        using types dist as' by (auto simp: m'_def)
    qed
    have fr: "\<And>x. x \<noteq> t \<Longrightarrow> x \<noteq> a \<Longrightarrow> x \<noteq> ka \<Longrightarrow> x \<notin> set pre \<Longrightarrow> heap m' x = heap m x"
      by (simp add: m'_def)
    have A3: "\<And>x. x \<in> set pre \<Longrightarrow> \<exists>bx bx'. heap m x = Some (Bind bx) \<and> heap m' x = Some (Bind bx')
                \<and> key bx' = key bx \<and> value_p bx' = value_p bx"
      using Nil by simp
    have ch'': "chain (heap m') (first (T\<lparr>first := next_p b, uiSize := uiSize T - 1\<rparr>)) (pre @ post)"
      using ch' Nil by simp
    have f4: "heap m' a = None" "heap m' ka = None" "avail m' = a # ka # avail m"
      using ne by (simp_all add: m'_def)
    note ri = removed_inv[OF inv as a T ht ch'' fr A3 f4]
    show ?thesis
      apply (rule exI[of _ m'])
      apply (rule exI[of _ "T\<lparr>first := next_p b, uiSize := uiSize T - 1\<rparr>"])
      apply (rule exI[of _ pre], rule exI[of _ post], rule exI[of _ ka])
      using res as rm fmk ri ht nx ka f4 fr Nil by simp
  next
    case (snoc xs p)
    with as have as': "as = xs @ p # a # post" by simp
    from dist as' have pa: "p \<noteq> a" "a \<notin> set xs" "p \<notin> set xs" by auto
    have pin: "p \<in> set as" using as' by simp
    from table_inv_nodes[OF inv pin] obtain bp where bp: "heap m p = Some (Bind bp)" by blast
    have pr: "pred_in as a None = Some p" unfolding as' using pa by (simp add: pred_in_inner)
    have fT: "first T \<noteq> Some a"
    proof (cases xs)
      case Nil
      with ch as' have "first T = Some p" by simp
      with pa show ?thesis by simp
    next
      case (Cons y ys)
      with ch as' have "first T = Some y" by simp
      moreover from Cons pa have "y \<noteq> a" by auto
      ultimately show ?thesis by simp
    qed
    define m' where "m' = m\<lparr>heap := (heap m)(p \<mapsto> Bind (bp\<lparr>next_p := next_p b\<rparr>),
                               t \<mapsto> Table (T\<lparr>uiSize := uiSize T - 1\<rparr>),
                               ka := None, a := None),
              avail := a # ka # avail m\<rparr>"
    have res: "SymTable_remove m (Some t) (Some k) = Some (Inr (1, m'))"
      using scan pr unlink_inner[OF T fT a bp pa(1)] by (simp add: m'_def)
    from T a bp have ne: "t \<noteq> a" "t \<noteq> ka" "a \<noteq> ka" "p \<noteq> t" "p \<noteq> ka" by auto
    have ht: "heap m' t = Some (Table (T\<lparr>uiSize := uiSize T - 1\<rparr>))"
      using ne by (simp add: m'_def)
    have hp: "heap m' p = Some (Bind (bp\<lparr>next_p := next_p b\<rparr>))"
      using ne pa by (simp add: m'_def)
    have same: "\<forall>x \<in> set xs \<union> set post. heap m' x = heap m x"
    proof
      fix x assume x: "x \<in> set xs \<union> set post"
      then have "x \<in> set as" using as' by auto
      from types[OF this] have "x \<noteq> t" "x \<noteq> ka" by simp_all
      moreover from x dist as' have "x \<noteq> p" "x \<noteq> a" by auto
      ultimately show "heap m' x = heap m x" by (simp add: m'_def)
    qed
    from ch have "chain (heap m) (first T) (xs @ p # a # post)" by (simp only: as')
    from chain_splice[OF this bp a(1) hp same pa(3)]
    have ch': "chain (heap m') (first (T\<lparr>uiSize := uiSize T - 1\<rparr>)) (pre @ post)"
      using snoc by simp
    have fr: "\<And>x. x \<noteq> t \<Longrightarrow> x \<noteq> a \<Longrightarrow> x \<noteq> ka \<Longrightarrow> x \<notin> set pre \<Longrightarrow> heap m' x = heap m x"
      using snoc by (simp add: m'_def)
    have A3: "\<And>x. x \<in> set pre \<Longrightarrow> \<exists>bx bx'. heap m x = Some (Bind bx) \<and> heap m' x = Some (Bind bx')
                \<and> key bx' = key bx \<and> value_p bx' = value_p bx"
    proof -
      fix x assume x: "x \<in> set pre"
      show "\<exists>bx bx'. heap m x = Some (Bind bx) \<and> heap m' x = Some (Bind bx')
                \<and> key bx' = key bx \<and> value_p bx' = value_p bx"
      proof (cases "x = p")
        case True
        with bp hp show ?thesis by simp
      next
        case False
        with x snoc have xs: "x \<in> set xs" by simp
        then have "x \<in> set as" using as' by simp
        from table_inv_nodes[OF inv this] obtain bx where "heap m x = Some (Bind bx)" by blast
        with same xs show ?thesis by simp
      qed
    qed
    have f4: "heap m' a = None" "heap m' ka = None" "avail m' = a # ka # avail m"
      using ne by (simp_all add: m'_def)
    note ri = removed_inv[OF inv as a T ht ch' fr A3 f4]
    have lastp: "next_of (heap m') (last pre) = next_of (heap m) a"
      using snoc hp nx by (simp add: next_of_def)
    show ?thesis
      apply (rule exI[of _ m'])
      apply (rule exI[of _ "T\<lparr>uiSize := uiSize T - 1\<rparr>"])
      apply (rule exI[of _ pre], rule exI[of _ post], rule exI[of _ ka])
      using res as rm fmk ri ht ka f4 fr lastp snoc by simp
  qed
qed

lemma SymTable_remove_absent:
  assumes inv: "table_inv m t as"
    and k: "cstring_at (heap m) (Some k) = Some ks"
    and fm: "first_match (heap m) as ks = None"
  shows "SymTable_remove m (Some t) (Some k) = Some (Inr (0, m))"
proof -
  from inv obtain T where T: "heap m t = Some (Table T)" "chain (heap m) (first T) as"
    and valid: "list_all (\<lambda>a. key_str (heap m) a \<noteq> None) as"
    by (auto simp: table_inv_def split: option.splits obj.splits)
  from remove_loop_scan[OF k T(2) valid, of t None] T(1) fm show ?thesis
    by (simp add: SymTable_remove_def table_at_def)
qed

subsection \<open>Sequences of operations\<close>

lemma new_reach_inv:
  assumes "distinct (avail m0)" "list_all (\<lambda>a. heap m0 a = None) (avail m0)"
    and "SymTable_new m0 = Inr (oSymTable, m1)"
  shows "\<exists>t. oSymTable = Some t \<and> reach_inv m1 t"
proof -
  from assms(3) obtain t rest where av: "avail m0 = t # rest"
    and o: "oSymTable = Some t"
    and m1: "m1 = m0\<lparr>avail := rest,
                    heap := (heap m0)(t \<mapsto> Table \<lparr>uiSize = 0, first = None\<rparr>)\<rparr>"
    by (cases "avail m0") (auto simp: SymTable_new_def malloc_def)
  from assms(1,2) av have "distinct rest" "t \<notin> set rest" "\<forall>x \<in> set rest. heap m0 x = None"
    by (auto simp: list_all_iff)
  then have "table_inv m1 t []"
    by (auto simp: table_inv_def m1 list_all_iff)
  moreover have "heap m1 t = Some (Table \<lparr>uiSize = 0, first = None\<rparr>)" by (simp add: m1)
  ultimately have "reach_inv m1 t" unfolding reach_inv_def
    by (intro exI[of _ "[]"] exI[of _ "\<lparr>uiSize = 0, first = None\<rparr>"]) simp
  with o show ?thesis by blast
qed

lemma put_reach_inv:
  assumes inv: "reach_inv m t" and put: "SymTable_put m (Some t) pcKey v = Some (Inr (r, m'))"
  shows "reach_inv m' t"
proof -
  from inv obtain as T where ti: "table_inv m t as" and T: "heap m t = Some (Table T)"
    and dk: "distinct (map (key_str (heap m)) as)" and sz: "uiSize T = of_nat (length as)"
    unfolding reach_inv_def by blast
  from put obtain k where k: "pcKey = Some k"
    by (cases pcKey) (auto simp: SymTable_put_def)
  from put k obtain found m0 where c: "SymTable_contains m (Some t) (Some k) = Some (Inr (found, m0))"
    by (auto simp: SymTable_put_def split: option.splits sum.splits)
  then have m0: "m0 = m" by (rule SymTable_contains_mem)
  show ?thesis
  proof (cases "found = 0")
    case False
    with put k c m0 have "m' = m" by (simp add: SymTable_put_def)
    with inv show ?thesis by simp
  next
    case True
    with put k c m0 have pn: "put_new m t k v = Inr (r, m')" by (simp add: SymTable_put_def)
    from put_new_Inr[OF pn] obtain nb nk rest ks where av: "avail m = nb # nk # rest"
      and ks: "cstring_at (heap m) (Some k) = Some ks" by blast
    from SymTable_contains_ok[OF ti ks] c True have fm: "first_match (heap m) as ks = None"
      by (auto split: if_splits)
    note fr = table_inv_fresh[OF ti av]
    from put_new_ok[OF T ks av fr(1,2,3)] pn
    have m': "m' = put_result m t T ks v nb nk rest" by simp
    have a: "table_inv m' t (nb # as)" unfolding m' using ti T av by (rule put_result_inv)
    have b: "heap m' t = Some (Table \<lparr>uiSize = uiSize T + 1, first = Some nb\<rparr>)"
      unfolding m' using ti T ks av by (rule put_result_new(3))
    have old: "map (key_str (heap m')) as = map (key_str (heap m)) as"
      unfolding m' by (rule map_cong) (simp_all add: put_result_old[OF ti T av])
    have new: "key_str (heap m') nb = Some ks"
      unfolding m' using ti T ks av by (rule put_result_new(4))
    from fm have "Some ks \<notin> set (map (key_str (heap m)) as)"
      by (auto simp: first_match_None)
    then have n1: "key_str (heap m') nb \<notin> set (map (key_str (heap m')) as)"
      unfolding old new .
    from dk have "distinct (map (key_str (heap m')) as)" unfolding old .
    with n1 have c': "distinct (map (key_str (heap m')) (nb # as))" by simp
    have d: "uiSize \<lparr>uiSize = uiSize T + 1, first = Some nb\<rparr> = of_nat (length (nb # as))"
      using sz by simp
    from a b c' d show ?thesis unfolding reach_inv_def by blast
  qed
qed

lemma remove_reach_inv:
  assumes inv: "reach_inv m t"
    and rem: "SymTable_remove m (Some t) pcKey = Some (Inr (r, m'))"
  shows "reach_inv m' t"
proof -
  from inv obtain as T where ti: "table_inv m t as" and T: "heap m t = Some (Table T)"
    and dk: "distinct (map (key_str (heap m)) as)" and sz: "uiSize T = of_nat (length as)"
    unfolding reach_inv_def by blast
  from rem obtain k where k: "pcKey = Some k"
    by (cases pcKey) (auto simp: SymTable_remove_def)
  from ti T have ch: "chain (heap m) (first T) as"
    and valid: "list_all (\<lambda>a. key_str (heap m) a \<noteq> None) as"
    by (simp_all add: table_inv_def)
  show ?thesis
  proof (cases "cstring_at (heap m) (Some k)")
    case None
    from rem k T have "remove_loop m t (first T) None k = Some (Inr (r, m'))"
      by (simp add: SymTable_remove_def table_at_def)
    from remove_loop_invalid_key[OF None ch valid this] inv show ?thesis by simp
  next
    case (Some ks)
    show ?thesis
    proof (cases "first_match (heap m) as ks")
      case None
      from SymTable_remove_absent[OF ti Some None] rem k inv show ?thesis by simp
    next
      case (Some a)
      from SymTable_remove_found[OF ti T \<open>cstring_at (heap m) (Some k) = Some ks\<close> Some]
      obtain m2 T' pre post where r: "SymTable_remove m (Some t) (Some k) = Some (Inr (1, m2))"
        "as = pre @ a # post" "table_inv m2 t (pre @ post)" "heap m2 t = Some (Table T')"
        "uiSize T' = uiSize T - 1"
        "\<forall>x \<in> set (pre @ post). key_str (heap m2) x = key_str (heap m) x
            \<and> value_of (heap m2) x = value_of (heap m) x"
        by blast
      from r(1) rem k have m2: "m2 = m'" by simp
      have "map (key_str (heap m2)) (pre @ post) = map (key_str (heap m)) (pre @ post)"
        by (rule map_cong) (use r(6) in simp_all)
      moreover from dk r(2) have "distinct (map (key_str (heap m)) (pre @ post))" by simp
      ultimately have d: "distinct (map (key_str (heap m2)) (pre @ post))" by metis
      have "uiSize T' = of_nat (length (pre @ post))"
        using r(5) sz r(2) by simp
      with r(3,4) d show ?thesis unfolding reach_inv_def m2[symmetric] by blast
    qed
  qed
qed

lemma run_reach_inv:
  "reach_inv m t \<Longrightarrow> run m (Some t) ops = Some (Inr m') \<Longrightarrow> reach_inv m' t"
proof (induction ops arbitrary: m)
  case Nil
  then show ?case by simp
next
  case (Cons op ops)
  show ?case
  proof (cases op)
    case (Put k v)
    with Cons.prems(2) obtain r m1 where s: "SymTable_put m (Some t) k v = Some (Inr (r, m1))"
      "run m1 (Some t) ops = Some (Inr m')"
      by (auto split: option.splits sum.splits)
    from put_reach_inv[OF Cons.prems(1) s(1)] s(2) show ?thesis by (rule Cons.IH)
  next
    case (Remove k)
    with Cons.prems(2) obtain r m1 where s: "SymTable_remove m (Some t) k = Some (Inr (r, m1))"
      "run m1 (Some t) ops = Some (Inr m')"
      by (auto split: option.splits sum.splits)
    from remove_reach_inv[OF Cons.prems(1) s(1)] s(2) show ?thesis by (rule Cons.IH)
  qed
qed


lemma run_snoc:
  "run m t (ops @ [op]) =
     (case run m t ops of Some (Inr m') \<Rightarrow> run m' t [op] | r \<Rightarrow> r)"
proof (induction ops arbitrary: m)
  case Nil
  show ?case by simp
next
  case (Cons x xs)
  then show ?case by (cases x) (auto split: option.splits sum.splits)
qed

subsection \<open>Evaluation on the concrete memories\<close>

lemmas ex_defs = mem_ex_def table_inv_def key_str_def key_addr_def cstring_at_def c_str_def
  NUL_def first_match_def value_of_def

lemmas eval_defs = SymTable_new_def SymTable_put_def put_new_def SymTable_contains_def
  SymTable_remove_def SymTable_get_def SymTable_getLength_def
  contains_loop.simps remove_loop.simps get_loop.simps unlink_def malloc_def free_def Let_def
  table_at_def bind_at_def str_at_def key_strcmp_def NUL_def

subsection \<open>Insertion of 2 ^ w different keys\<close>

lemma c_str_key_bits:
  "c_str (key_bits w i) = map (\<lambda>j. if bit i j then CHR ''1'' else CHR ''0'') [0..<w]"
proof -
  have "NUL \<notin> set (map (\<lambda>j. if bit i j then CHR ''1'' else CHR ''0'') [0..<w])"
    by (auto simp: NUL_def)
  then show ?thesis unfolding key_bits_def by (rule c_str_append_NUL)
qed

lemma key_bits_inj:
  assumes "i < 2 ^ w" "j < 2 ^ w" "c_str (key_bits w i) = c_str (key_bits w j)"
  shows "i = j"
proof (rule bit_eqI)
  fix k
  show "bit i k \<longleftrightarrow> bit j k"
  proof (cases "k < w")
    case True
    from assms(3) have "\<forall>x \<in> set [0..<w].
        (if bit i x then CHR ''1'' else CHR ''0'') = (if bit j x then CHR ''1'' else CHR ''0'')"
      unfolding c_str_key_bits map_eq_conv .
    with True show ?thesis by (auto split: if_splits)
  next
    case False
    then have "(2::nat) ^ w \<le> 2 ^ k" by simp
    with assms(1,2) have "i < 2 ^ k" "j < 2 ^ k" by linarith+
    then show ?thesis by (simp add: bit_iff_odd)
  qed
qed

lemma big_ops_Suc: "big_ops w (Suc n) = big_ops w n @ [Put (Some n) None]"
  by (simp add: big_ops_def)

lemma big_new:
  "SymTable_new (big_mem w) =
     Inr (Some (2 ^ w), (big_mem w)\<lparr>avail := [2 ^ w + 1 ..< 3 * 2 ^ w + 1],
            heap := (heap (big_mem w))(2 ^ w \<mapsto> Table \<lparr>uiSize = 0, first = None\<rparr>)\<rparr>)"
proof -
  have "[(2::nat) ^ w ..< 3 * 2 ^ w + 1] = 2 ^ w # [2 ^ w + 1 ..< 3 * 2 ^ w + 1]"
    by (simp add: upt_conv_Cons)
  then show ?thesis by (simp add: SymTable_new_def malloc_def big_mem_def)
qed

lemma big_run:
  fixes w :: nat
  defines "t \<equiv> 2 ^ w"
  defines "m1 \<equiv> (big_mem w)\<lparr>avail := [2 ^ w + 1 ..< 3 * 2 ^ w + 1],
            heap := (heap (big_mem w))(2 ^ w \<mapsto> Table \<lparr>uiSize = 0, first = None\<rparr>)\<rparr>"
  shows "n \<le> 2 ^ w \<Longrightarrow>
    \<exists>m as T. run m1 (Some t) (big_ops w n) = Some (Inr m)
      \<and> table_inv m t as \<and> heap m t = Some (Table T)
      \<and> length as = n \<and> uiSize T = of_nat n
      \<and> avail m = [t + 1 + 2 * n ..< 3 * t + 1]
      \<and> (\<forall>a < t. heap m a = Some (Str (key_bits w a)))
      \<and> (\<forall>x \<in> set as. \<exists>i < n. key_str (heap m) x = Some (c_str (key_bits w i)))"
proof (induction n)
  case 0
  have "table_inv m1 t []"
    by (auto simp: table_inv_def m1_def t_def big_mem_def list_all_iff)
  moreover have "heap m1 t = Some (Table \<lparr>uiSize = 0, first = None\<rparr>)"
    by (simp add: m1_def t_def)
  moreover have "avail m1 = [t + 1 + 2 * 0 ..< 3 * t + 1]" by (simp add: m1_def t_def)
  moreover have "\<forall>a < t. heap m1 a = Some (Str (key_bits w a))"
    by (simp add: m1_def t_def big_mem_def)
  ultimately show ?case
    by (intro exI[of _ m1] exI[of _ "[]"] exI[of _ "\<lparr>uiSize = 0, first = None\<rparr>"])
       (simp add: big_ops_def)
next
  case (Suc n)
  then have n: "n < 2 ^ w" by simp
  with Suc.IH obtain m as T where r: "run m1 (Some t) (big_ops w n) = Some (Inr m)"
    and inv: "table_inv m t as" and T: "heap m t = Some (Table T)"
    and len: "length as = n" and sz: "uiSize T = of_nat n"
    and av: "avail m = [t + 1 + 2 * n ..< 3 * t + 1]"
    and strs: "\<forall>a < t. heap m a = Some (Str (key_bits w a))"
    and keys: "\<forall>x \<in> set as. \<exists>i < n. key_str (heap m) x = Some (c_str (key_bits w i))"
    by auto
  define ks where "ks = c_str (key_bits w n)"
  define nb where "nb = t + 1 + 2 * n"
  define nk where "nk = t + 2 + 2 * n"
  define rest where "rest = [t + 1 + 2 * Suc n ..< 3 * t + 1]"
  have nt: "n < t" using n by (simp add: t_def)
  have k: "cstring_at (heap m) (Some n) = Some ks"
    using strs nt by (simp add: cstring_at_def ks_def key_bits_def)
  have fm: "first_match (heap m) as ks = None"
  proof -
    have "\<And>x. x \<in> set as \<Longrightarrow> key_str (heap m) x \<noteq> Some ks"
    proof
      fix x assume "x \<in> set as" "key_str (heap m) x = Some ks"
      with keys obtain i where i: "i < n" "c_str (key_bits w i) = c_str (key_bits w n)"
        by (auto simp: ks_def)
      from i(1) n have "i < 2 ^ w" by simp
      from key_bits_inj[OF this n i(2)] i(1) show False by simp
    qed
    then show ?thesis by (simp add: first_match_None)
  qed
  have av': "avail m = nb # nk # rest"
  proof -
    from nt have "t + 1 + 2 * n < 3 * t + 1" "t + 2 + 2 * n < 3 * t + 1" by simp_all
    then show ?thesis
      unfolding av nb_def nk_def rest_def by (simp add: upt_conv_Cons)
  qed
  let ?m' = "put_result m t T ks None nb nk rest"
  have put: "SymTable_put m (Some t) (Some n) None = Some (Inr (1, ?m'))"
    using inv T k fm av' by (rule SymTable_put_fresh)
  have run': "run m1 (Some t) (big_ops w (Suc n)) = Some (Inr ?m')"
    by (simp add: big_ops_Suc run_snoc r put)
  have inv': "table_inv ?m' t (nb # as)" using inv T av' by (rule put_result_inv)
  have T': "heap ?m' t = Some (Table \<lparr>uiSize = uiSize T + 1, first = Some nb\<rparr>)"
    using inv T k av' by (rule put_result_new(3))
  have sz': "uiSize \<lparr>uiSize = uiSize T + 1, first = Some nb\<rparr> = of_nat (Suc n)"
    using sz by simp
  have avr: "avail ?m' = [t + 1 + 2 * Suc n ..< 3 * t + 1]"
    using put_result_new(9)[OF inv T k av'] by (simp add: rest_def)
  have strs': "\<forall>a < t. heap ?m' a = Some (Str (key_bits w a))"
  proof (intro allI impI)
    fix a assume a: "a < t"
    then have "a \<noteq> nk" "a \<noteq> nb" "a \<noteq> t" by (simp_all add: nk_def nb_def)
    with put_result_new(10)[OF inv T k av', where v = None] have "heap ?m' a = heap m a"
      by blast
    with strs a show "heap ?m' a = Some (Str (key_bits w a))" by simp
  qed
  have keys': "\<forall>x \<in> set (nb # as). \<exists>i < Suc n. key_str (heap ?m') x = Some (c_str (key_bits w i))"
  proof
    fix x assume x: "x \<in> set (nb # as)"
    show "\<exists>i < Suc n. key_str (heap ?m') x = Some (c_str (key_bits w i))"
    proof (cases "x \<in> set as")
      case True
      with keys obtain i where "i < n" "key_str (heap m) x = Some (c_str (key_bits w i))"
        by blast
      with put_result_old(1)[OF inv T av' True, where ks = ks and v = None] show ?thesis
        by (auto intro: exI[of _ i])
    next
      case False
      with x have "x = nb" by simp
      with put_result_new(4)[OF inv T k av', where v = None] show ?thesis
        by (auto simp: ks_def intro: exI[of _ n])
    qed
  qed
  from run' inv' T' sz' avr strs' keys' len show ?case
    by (intro exI[of _ ?m'] exI[of _ "nb # as"]
          exI[of _ "\<lparr>uiSize = uiSize T + 1, first = Some nb\<rparr>"]) simp
qed

lemma foldl_count_binding:
  "foldl (\<lambda>w a. count_binding (g w a) (h w a) e w) (m, c) as = (m, c + length as)"
  by (induction as arbitrary: c) (simp_all add: count_binding_def)

lemma big_length_and_visits:
  "length_and_visits (big_mem w) (big_ops w (2 ^ w)) = Some (of_nat (2 ^ w), 2 ^ w)"
proof -
  from big_run[of "2 ^ w" w] obtain m as T where
    r: "run ((big_mem w)\<lparr>avail := [2 ^ w + 1 ..< 3 * 2 ^ w + 1],
            heap := (heap (big_mem w))(2 ^ w \<mapsto> Table \<lparr>uiSize = 0, first = None\<rparr>)\<rparr>)
          (Some (2 ^ w)) (big_ops w (2 ^ w)) = Some (Inr m)"
    and inv: "table_inv m (2 ^ w) as" and T: "heap m (2 ^ w) = Some (Table T)"
    and len: "length as = 2 ^ w" and sz: "uiSize T = of_nat (2 ^ w)"
    by auto
  from inv T have ch: "chain (heap (fst (m, 0::nat))) (first T) as" by (simp add: table_inv_def)
  have pure: "\<And>k v e w. fst (count_binding k v e w) = fst w" by (simp add: count_binding_def)
  have "SymTable_map (m, 0) (Some (2 ^ w)) (Some count_binding) None = Some (Inr (m, length as))"
    using map_loop_chain[of count_binding, OF pure ch, of None] T
    by (simp add: SymTable_map_def table_at_def foldl_count_binding)
  moreover have "SymTable_getLength m (Some (2 ^ w)) = Inr (of_nat (2 ^ w))"
    using T sz by (simp add: SymTable_getLength_def table_at_def)
  ultimately show ?thesis
    using r len by (simp add: length_and_visits_def big_new)
qed


section \<open>Null arguments\<close>

text \<open>
  C8. Every operation that requires a non-null argument checks it with an assertion before
  it reads anything through it: with a null table, a null key or a null function the call
  ends in the assertion failure, whatever the memory and the other arguments are.
\<close>

theorem C8_null_arguments_assert:
  "SymTable_getLength m None = Inl AssertFail
   \<and> SymTable_contains m None pcKey = Some (Inl AssertFail)
   \<and> SymTable_contains m (Some t) None = Some (Inl AssertFail)
   \<and> SymTable_put m None pcKey pvValue = Some (Inl AssertFail)
   \<and> SymTable_put m (Some t) None pvValue = Some (Inl AssertFail)
   \<and> SymTable_get m None pcKey = Some (Inl AssertFail)
   \<and> SymTable_get m (Some t) None = Some (Inl AssertFail)
   \<and> SymTable_remove m None pcKey = Some (Inl AssertFail)
   \<and> SymTable_remove m (Some t) None = Some (Inl AssertFail)
   \<and> SymTable_map w None pfApply pvExtra = Some (Inl AssertFail)
   \<and> SymTable_map w (Some t) None pvExtra = Some (Inl AssertFail)"
  by (simp add: SymTable_getLength_def SymTable_contains_def SymTable_put_def
      SymTable_get_def SymTable_remove_def SymTable_map_def)

section \<open>Insertion\<close>

text \<open>
  C1. On a well-formed table \<open>t\<close> in which the key string \<open>ks\<close> of the non-null key
  \<open>k\<close> is not bound, and with two addresses \<open>nb\<close>, \<open>nk\<close> left to allocate,
  \<^verbatim>\<open>SymTable_put\<close> returns 1. The key of the new binding is a fresh copy: \<open>nk\<close> held no
  object before the call, is not the caller's pointer \<open>k\<close>, and now holds the bytes of
  \<open>ks\<close> and a terminator, while the caller's array is untouched. The binding at \<open>nb\<close>
  stores the pointer \<open>v\<close> itself and the old head as its successor; the header points to
  \<open>nb\<close> and its count is one more (in 32-bit unsigned arithmetic). The table is well formed
  again, with \<open>nb\<close> in front of the old bindings, whose keys and values are unchanged.
\<close>

theorem C1_put_new_binding:
  assumes "table_inv m t as" and "heap m t = Some (Table T)"
    and "cstring_at (heap m) (Some k) = Some ks"
    and "first_match (heap m) as ks = None"
    and "avail m = nb # nk # rest"
  shows "\<exists>m'. SymTable_put m (Some t) (Some k) v = Some (Inr (1, m'))
      \<and> heap m nb = None \<and> heap m nk = None \<and> nk \<noteq> k
      \<and> heap m' nk = Some (Str (ks @ [NUL])) \<and> heap m' k = heap m k
      \<and> heap m' nb = Some (Bind \<lparr>key = Some nk, value_p = v, next_p = first T\<rparr>)
      \<and> heap m' t = Some (Table \<lparr>uiSize = uiSize T + 1, first = Some nb\<rparr>)
      \<and> table_inv m' t (nb # as)
      \<and> key_str (heap m') nb = Some ks \<and> value_of (heap m') nb = v
      \<and> map (key_str (heap m')) as = map (key_str (heap m)) as
      \<and> map (value_of (heap m')) as = map (value_of (heap m)) as
      \<and> avail m' = rest"
proof -
  let ?m' = "put_result m t T ks v nb nk rest"
  note new = put_result_new[OF assms(1,2,3,5)]
  note fr = table_inv_fresh[OF assms(1,5)]
  have "SymTable_put m (Some t) (Some k) v = Some (Inr (1, ?m'))"
    using assms by (rule SymTable_put_fresh)
  moreover have "table_inv ?m' t (nb # as)" using assms(1,2,5) by (rule put_result_inv)
  moreover have "map (key_str (heap ?m')) as = map (key_str (heap m)) as"
    by (rule map_cong) (simp_all add: put_result_old[OF assms(1,2,5)])
  moreover have "map (value_of (heap ?m')) as = map (value_of (heap m)) as"
    by (rule map_cong) (simp_all add: put_result_old[OF assms(1,2,5)])
  ultimately show ?thesis using new(1-7,9) fr(1,2) by blast
qed

theorem C1_put_new_binding_witness:
  "table_inv mem_ex 10 [11, 13]
   \<and> heap mem_ex 10 = Some (Table \<lparr>uiSize = 2, first = Some 11\<rparr>)
   \<and> cstring_at (heap mem_ex) (Some 0) = Some ''a''
   \<and> first_match (heap mem_ex) [11, 13] ''a'' = None
   \<and> avail mem_ex = [20, 21, 22]
   \<and> (\<exists>m'. SymTable_put mem_ex (Some 10) (Some 0) (Some 7) = Some (Inr (1, m'))
        \<and> heap mem_ex 21 = None
        \<and> heap m' 21 = Some (Str [CHR ''a'', NUL])
        \<and> heap m' 20 = Some (Bind \<lparr>key = Some 21, value_p = Some 7, next_p = Some 11\<rparr>)
        \<and> heap m' 10 = Some (Table \<lparr>uiSize = 3, first = Some 20\<rparr>)
        \<and> table_inv m' 10 [20, 11, 13])"
proof -
  have h1: "table_inv mem_ex 10 [11, 13]" by (simp add: ex_defs)
  have h2: "heap mem_ex 10 = Some (Table \<lparr>uiSize = 2, first = Some 11\<rparr>)"
    by (simp add: mem_ex_def)
  have h3: "cstring_at (heap mem_ex) (Some 0) = Some ''a''" by (simp add: ex_defs)
  have h4: "first_match (heap mem_ex) [11, 13] ''a'' = None" by (simp add: ex_defs)
  have h5: "avail mem_ex = [20, 21, 22]" by (simp add: mem_ex_def)
  from C1_put_new_binding[OF h1 h2 h3 h4 h5, where v = "Some 7"] h1 h2 h3 h4 h5
  show ?thesis by (simp add: NUL_def) blast
qed

text \<open>
  C2. On a well-formed table in which the key string of the non-null key \<open>k\<close> is already
  bound, \<^verbatim>\<open>SymTable_put\<close> returns 0 and the memory it leaves behind is the memory it was
  given: the existing binding keeps its value, and the chain and the count are the same.
\<close>

theorem C2_put_existing_key:
  assumes "table_inv m t as" and "heap m t = Some (Table T)"
    and "cstring_at (heap m) (Some k) = Some ks"
    and "first_match (heap m) as ks = Some a"
  shows "SymTable_put m (Some t) (Some k) v = Some (Inr (0, m))
     \<and> SymTable_get m (Some t) (Some k) = Some (Inr (value_of (heap m) a, m))
     \<and> SymTable_getLength m (Some t) = Inr (uiSize T)"
proof -
  have "SymTable_put m (Some t) (Some k) v = Some (Inr (0, m))"
    using assms(1,3,4) by (rule SymTable_put_dup)
  moreover have "SymTable_get m (Some t) (Some k) = Some (Inr (value_of (heap m) a, m))"
    using SymTable_get_ok[OF assms(1,3)] assms(4) by simp
  moreover have "SymTable_getLength m (Some t) = Inr (uiSize T)"
    using assms(2) by (simp add: SymTable_getLength_def table_at_def)
  ultimately show ?thesis by blast
qed

theorem C2_put_existing_key_witness:
  "table_inv mem_ex 10 [11, 13]
   \<and> heap mem_ex 10 = Some (Table \<lparr>uiSize = 2, first = Some 11\<rparr>)
   \<and> cstring_at (heap mem_ex) (Some 1) = Some ''b''
   \<and> first_match (heap mem_ex) [11, 13] ''b'' = Some 11
   \<and> SymTable_put mem_ex (Some 10) (Some 1) (Some 7) = Some (Inr (0, mem_ex))
   \<and> SymTable_get mem_ex (Some 10) (Some 1) = Some (Inr (Some 100, mem_ex))
   \<and> SymTable_getLength mem_ex (Some 10) = Inr 2"
proof -
  have h1: "table_inv mem_ex 10 [11, 13]" by (simp add: ex_defs)
  have h2: "heap mem_ex 10 = Some (Table \<lparr>uiSize = 2, first = Some 11\<rparr>)"
    by (simp add: mem_ex_def)
  have h3: "cstring_at (heap mem_ex) (Some 1) = Some ''b''" by (simp add: ex_defs)
  have h4: "first_match (heap mem_ex) [11, 13] ''b'' = Some 11" by (simp add: ex_defs)
  have v: "value_of (heap mem_ex) 11 = Some 100" by (simp add: ex_defs)
  from C2_put_existing_key[OF h1 h2 h3 h4, where v = "Some 7"] h1 h2 h3 h4 v
  show ?thesis by simp
qed

text \<open>
  C5. On a well-formed table: when the key string of \<open>k\<close> is not bound and the two
  allocations succeed, \<^verbatim>\<open>SymTable_put\<close> returns 1 and \<^verbatim>\<open>SymTable_get\<close> on the memory it
  leaves then returns the pointer \<open>v\<close>; when the key string is already bound, by the binding
  \<open>a\<close>, the put returns 0, the get after it returns the value pointer of \<open>a\<close> as it was
  before the put, and \<^verbatim>\<open>SymTable_getLength\<close> is what it was.
\<close>

theorem C5_put_then_get:
  assumes "table_inv m t as" and "heap m t = Some (Table T)"
    and "cstring_at (heap m) (Some k) = Some ks"
  shows "(first_match (heap m) as ks = None \<longrightarrow> avail m = nb # nk # rest \<longrightarrow>
            (\<exists>m'. SymTable_put m (Some t) (Some k) v = Some (Inr (1, m'))
               \<and> SymTable_get m' (Some t) (Some k) = Some (Inr (v, m'))))
       \<and> (\<forall>a. first_match (heap m) as ks = Some a \<longrightarrow>
            (\<exists>m'. SymTable_put m (Some t) (Some k) v = Some (Inr (0, m'))
               \<and> SymTable_get m' (Some t) (Some k) = Some (Inr (value_of (heap m) a, m'))
               \<and> SymTable_getLength m' (Some t) = SymTable_getLength m (Some t)))"
proof (intro conjI impI allI)
  assume fm: "first_match (heap m) as ks = None" and av: "avail m = nb # nk # rest"
  let ?m' = "put_result m t T ks v nb nk rest"
  have put: "SymTable_put m (Some t) (Some k) v = Some (Inr (1, ?m'))"
    using assms fm av by (rule SymTable_put_fresh)
  have inv': "table_inv ?m' t (nb # as)" using assms(1,2) av by (rule put_result_inv)
  have k': "cstring_at (heap ?m') (Some k) = Some ks"
    using assms av by (rule put_result_new(8))
  have "SymTable_get ?m' (Some t) (Some k) = Some (Inr (v, ?m'))"
    using SymTable_get_ok[OF inv' k'] first_match_put_result(1)[OF assms av]
      put_result_new(5)[OF assms av] by simp
  with put show "\<exists>m'. SymTable_put m (Some t) (Some k) v = Some (Inr (1, m'))
               \<and> SymTable_get m' (Some t) (Some k) = Some (Inr (v, m'))" by blast
next
  fix a assume fm: "first_match (heap m) as ks = Some a"
  have "SymTable_put m (Some t) (Some k) v = Some (Inr (0, m))"
    using assms(1,3) fm by (rule SymTable_put_dup)
  moreover have "SymTable_get m (Some t) (Some k) = Some (Inr (value_of (heap m) a, m))"
    using SymTable_get_ok[OF assms(1,3)] fm by simp
  ultimately show "\<exists>m'. SymTable_put m (Some t) (Some k) v = Some (Inr (0, m'))
               \<and> SymTable_get m' (Some t) (Some k) = Some (Inr (value_of (heap m) a, m'))
               \<and> SymTable_getLength m' (Some t) = SymTable_getLength m (Some t)" by blast
qed

theorem C5_put_then_get_witness:
  "table_inv mem_ex 10 [11, 13]
   \<and> heap mem_ex 10 = Some (Table \<lparr>uiSize = 2, first = Some 11\<rparr>)
   \<and> cstring_at (heap mem_ex) (Some 0) = Some ''a''
   \<and> first_match (heap mem_ex) [11, 13] ''a'' = None
   \<and> avail mem_ex = [20, 21, 22]
   \<and> (\<exists>m'. SymTable_put mem_ex (Some 10) (Some 0) (Some 7) = Some (Inr (1, m'))
         \<and> SymTable_get m' (Some 10) (Some 0) = Some (Inr (Some 7, m')))
   \<and> cstring_at (heap mem_ex) (Some 1) = Some ''b''
   \<and> first_match (heap mem_ex) [11, 13] ''b'' = Some 11
   \<and> (\<exists>m'. SymTable_put mem_ex (Some 10) (Some 1) (Some 7) = Some (Inr (0, m'))
         \<and> SymTable_get m' (Some 10) (Some 1) = Some (Inr (Some 100, m'))
         \<and> SymTable_getLength m' (Some 10) = SymTable_getLength mem_ex (Some 10))"
proof -
  have h1: "table_inv mem_ex 10 [11, 13]" by (simp add: ex_defs)
  have h2: "heap mem_ex 10 = Some (Table \<lparr>uiSize = 2, first = Some 11\<rparr>)"
    by (simp add: mem_ex_def)
  have h3: "cstring_at (heap mem_ex) (Some 0) = Some ''a''" by (simp add: ex_defs)
  have h4: "first_match (heap mem_ex) [11, 13] ''a'' = None" by (simp add: ex_defs)
  have h5: "avail mem_ex = [20, 21, 22]" by (simp add: mem_ex_def)
  have g3: "cstring_at (heap mem_ex) (Some 1) = Some ''b''" by (simp add: ex_defs)
  have g4: "first_match (heap mem_ex) [11, 13] ''b'' = Some 11" by (simp add: ex_defs)
  have v: "value_of (heap mem_ex) 11 = Some 100" by (simp add: ex_defs)
  from C5_put_then_get[OF h1 h2 h3, where v = "Some 7" and nb = 20 and nk = 21 and rest = "[22]"]
    h4 h5
  have a: "\<exists>m'. SymTable_put mem_ex (Some 10) (Some 0) (Some 7) = Some (Inr (1, m'))
         \<and> SymTable_get m' (Some 10) (Some 0) = Some (Inr (Some 7, m'))" by simp
  from C5_put_then_get[OF h1 h2 g3, where v = "Some 7"] g4 v
  have b: "\<exists>m'. SymTable_put mem_ex (Some 10) (Some 1) (Some 7) = Some (Inr (0, m'))
         \<and> SymTable_get m' (Some 10) (Some 1) = Some (Inr (Some 100, m'))
         \<and> SymTable_getLength m' (Some 10) = SymTable_getLength mem_ex (Some 10)" by simp
  from h1 h2 h3 h4 h5 g3 g4 a b show ?thesis by blast
qed

section \<open>Lookup\<close>

text \<open>
  C7. \<^verbatim>\<open>SymTable_contains\<close> and \<^verbatim>\<open>SymTable_get\<close> have no side effects. Whenever either
  returns, for any memory and any arguments, the memory it leaves behind is the memory it was
  given, so the same call made again returns the same result; and on a well-formed table
  with a valid key both do return.
\<close>

theorem C7_contains_get_no_side_effects:
  assumes "table_inv m t as" and "cstring_at (heap m) (Some k) = Some ks"
  shows "(\<exists>r. SymTable_contains m (Some t) (Some k) = Some (Inr (r, m)))
     \<and> (\<exists>v. SymTable_get m (Some t) (Some k) = Some (Inr (v, m)))
     \<and> (\<forall>m0 oSymTable pcKey r m'.
          SymTable_contains m0 oSymTable pcKey = Some (Inr (r, m')) \<longrightarrow>
            m' = m0 \<and> SymTable_contains m' oSymTable pcKey = Some (Inr (r, m')))
     \<and> (\<forall>m0 oSymTable pcKey v m'.
          SymTable_get m0 oSymTable pcKey = Some (Inr (v, m')) \<longrightarrow>
            m' = m0 \<and> SymTable_get m' oSymTable pcKey = Some (Inr (v, m')))"
proof (intro conjI allI impI)
  show "\<exists>r. SymTable_contains m (Some t) (Some k) = Some (Inr (r, m))"
    using SymTable_contains_ok[OF assms] by blast
  show "\<exists>v. SymTable_get m (Some t) (Some k) = Some (Inr (v, m))"
    using SymTable_get_ok[OF assms] by blast
next
  fix m0 oSymTable pcKey r m'
  assume c: "SymTable_contains m0 oSymTable pcKey = Some (Inr (r, m'))"
  then show "m' = m0"
    by (auto simp: SymTable_contains_def split: option.splits sum.splits)
  with c show "SymTable_contains m' oSymTable pcKey = Some (Inr (r, m'))" by simp
next
  fix m0 oSymTable pcKey v m'
  assume g: "SymTable_get m0 oSymTable pcKey = Some (Inr (v, m'))"
  then show "m' = m0"
    by (auto simp: SymTable_get_def split: option.splits sum.splits)
  with g show "SymTable_get m' oSymTable pcKey = Some (Inr (v, m'))" by simp
qed

theorem C7_contains_get_no_side_effects_witness:
  "table_inv mem_ex 10 [11, 13]
   \<and> cstring_at (heap mem_ex) (Some 1) = Some ''b''
   \<and> SymTable_contains mem_ex (Some 10) (Some 1) = Some (Inr (1, mem_ex))
   \<and> SymTable_get mem_ex (Some 10) (Some 1) = Some (Inr (Some 100, mem_ex))"
proof -
  have h1: "table_inv mem_ex 10 [11, 13]" by (simp add: ex_defs)
  have h2: "cstring_at (heap mem_ex) (Some 1) = Some ''b''" by (simp add: ex_defs)
  have c: "\<exists>m'. SymTable_contains mem_ex (Some 10) (Some 1) = Some (Inr (1, m'))"
    by (simp add: SymTable_contains_def table_at_def mem_ex_def contains_loop.simps bind_at_def
        key_strcmp_def str_at_def NUL_def)
  have g: "\<exists>m'. SymTable_get mem_ex (Some 10) (Some 1) = Some (Inr (Some 100, m'))"
    by (simp add: SymTable_get_def table_at_def mem_ex_def get_loop.simps bind_at_def
        key_strcmp_def str_at_def NUL_def)
  from C7_contains_get_no_side_effects[OF h1 h2] c g h1 h2 show ?thesis by blast
qed

text \<open>
  C9. The null pointer that \<^verbatim>\<open>SymTable_get\<close> returns for an absent key is also what it
  returns for a key bound to the null pointer. On a well-formed table: after a successful
  \<^verbatim>\<open>SymTable_put\<close> of \<open>k\<close> with the null value, and in any state in which the binding
  found for \<open>k\<close> holds the null value, \<^verbatim>\<open>SymTable_get\<close> returns the null pointer while
  \<^verbatim>\<open>SymTable_contains\<close> returns 1; for a key that is not bound \<^verbatim>\<open>SymTable_get\<close> returns
  the null pointer as well, and \<^verbatim>\<open>SymTable_contains\<close> returns 0.
\<close>

theorem C9_get_null_value_collides_with_absent:
  assumes "table_inv m t as" and "heap m t = Some (Table T)"
    and "cstring_at (heap m) (Some k) = Some ks"
  shows "(first_match (heap m) as ks = None \<longrightarrow> avail m = nb # nk # rest \<longrightarrow>
            (\<exists>m'. SymTable_put m (Some t) (Some k) None = Some (Inr (1, m'))
               \<and> SymTable_get m' (Some t) (Some k) = Some (Inr (None, m'))
               \<and> SymTable_contains m' (Some t) (Some k) = Some (Inr (1, m'))))
       \<and> (\<forall>a. first_match (heap m) as ks = Some a \<longrightarrow> value_of (heap m) a = None \<longrightarrow>
             SymTable_get m (Some t) (Some k) = Some (Inr (None, m))
             \<and> SymTable_contains m (Some t) (Some k) = Some (Inr (1, m)))
       \<and> (first_match (heap m) as ks = None \<longrightarrow>
             SymTable_get m (Some t) (Some k) = Some (Inr (None, m))
             \<and> SymTable_contains m (Some t) (Some k) = Some (Inr (0, m)))"
proof (intro conjI impI allI)
  assume fm: "first_match (heap m) as ks = None" and av: "avail m = nb # nk # rest"
  let ?m' = "put_result m t T ks None nb nk rest"
  have put: "SymTable_put m (Some t) (Some k) None = Some (Inr (1, ?m'))"
    using assms fm av by (rule SymTable_put_fresh)
  have inv': "table_inv ?m' t (nb # as)" using assms(1,2) av by (rule put_result_inv)
  have k': "cstring_at (heap ?m') (Some k) = Some ks"
    using assms av by (rule put_result_new(8))
  note fm' = first_match_put_result(1)[OF assms av, where v = None]
  have "SymTable_get ?m' (Some t) (Some k) = Some (Inr (None, ?m'))"
    using SymTable_get_ok[OF inv' k'] fm' put_result_new(5)[OF assms av, where v = None] by simp
  moreover have "SymTable_contains ?m' (Some t) (Some k) = Some (Inr (1, ?m'))"
    using SymTable_contains_ok[OF inv' k'] fm' by simp
  ultimately show "\<exists>m'. SymTable_put m (Some t) (Some k) None = Some (Inr (1, m'))
               \<and> SymTable_get m' (Some t) (Some k) = Some (Inr (None, m'))
               \<and> SymTable_contains m' (Some t) (Some k) = Some (Inr (1, m'))"
    using put by blast
next
  fix a assume "first_match (heap m) as ks = Some a" "value_of (heap m) a = None"
  then show "SymTable_get m (Some t) (Some k) = Some (Inr (None, m))"
    and "SymTable_contains m (Some t) (Some k) = Some (Inr (1, m))"
    using SymTable_get_ok[OF assms(1,3)] SymTable_contains_ok[OF assms(1,3)] by simp_all
next
  assume "first_match (heap m) as ks = None"
  then show "SymTable_get m (Some t) (Some k) = Some (Inr (None, m))"
    and "SymTable_contains m (Some t) (Some k) = Some (Inr (0, m))"
    using SymTable_get_ok[OF assms(1,3)] SymTable_contains_ok[OF assms(1,3)] by simp_all
qed

theorem C9_get_null_value_collides_with_absent_witness:
  "table_inv mem_ex 10 [11, 13]
   \<and> heap mem_ex 10 = Some (Table \<lparr>uiSize = 2, first = Some 11\<rparr>)
   \<and> cstring_at (heap mem_ex) (Some 0) = Some ''a''
   \<and> first_match (heap mem_ex) [11, 13] ''a'' = None
   \<and> avail mem_ex = [20, 21, 22]
   \<and> (\<exists>m'. SymTable_put mem_ex (Some 10) (Some 0) None = Some (Inr (1, m'))
         \<and> SymTable_get m' (Some 10) (Some 0) = Some (Inr (None, m'))
         \<and> SymTable_contains m' (Some 10) (Some 0) = Some (Inr (1, m')))
   \<and> SymTable_get mem_ex (Some 10) (Some 0) = Some (Inr (None, mem_ex))
   \<and> SymTable_contains mem_ex (Some 10) (Some 0) = Some (Inr (0, mem_ex))
   \<and> cstring_at (heap mem_ex) (Some 3) = Some ''c''
   \<and> first_match (heap mem_ex) [11, 13] ''c'' = Some 13
   \<and> value_of (heap mem_ex) 13 = None
   \<and> SymTable_get mem_ex (Some 10) (Some 3) = Some (Inr (None, mem_ex))
   \<and> SymTable_contains mem_ex (Some 10) (Some 3) = Some (Inr (1, mem_ex))"
proof -
  have h1: "table_inv mem_ex 10 [11, 13]" by (simp add: ex_defs)
  have h2: "heap mem_ex 10 = Some (Table \<lparr>uiSize = 2, first = Some 11\<rparr>)"
    by (simp add: mem_ex_def)
  have h3: "cstring_at (heap mem_ex) (Some 0) = Some ''a''" by (simp add: ex_defs)
  have h4: "first_match (heap mem_ex) [11, 13] ''a'' = None" by (simp add: ex_defs)
  have h5: "avail mem_ex = [20, 21, 22]" by (simp add: mem_ex_def)
  have g3: "cstring_at (heap mem_ex) (Some 3) = Some ''c''" by (simp add: ex_defs)
  have g4: "first_match (heap mem_ex) [11, 13] ''c'' = Some 13" by (simp add: ex_defs)
  have g5: "value_of (heap mem_ex) 13 = None" by (simp add: ex_defs)
  from C9_get_null_value_collides_with_absent[OF h1 h2 h3,
      where nb = 20 and nk = 21 and rest = "[22]"] h4 h5
  have a: "(\<exists>m'. SymTable_put mem_ex (Some 10) (Some 0) None = Some (Inr (1, m'))
         \<and> SymTable_get m' (Some 10) (Some 0) = Some (Inr (None, m'))
         \<and> SymTable_contains m' (Some 10) (Some 0) = Some (Inr (1, m')))
     \<and> SymTable_get mem_ex (Some 10) (Some 0) = Some (Inr (None, mem_ex))
     \<and> SymTable_contains mem_ex (Some 10) (Some 0) = Some (Inr (0, mem_ex))" by simp
  from C9_get_null_value_collides_with_absent[OF h1 h2 g3] g4 g5
  have b: "SymTable_get mem_ex (Some 10) (Some 3) = Some (Inr (None, mem_ex))
     \<and> SymTable_contains mem_ex (Some 10) (Some 3) = Some (Inr (1, mem_ex))" by simp
  from h1 h2 h3 h4 h5 g3 g4 g5 a b show ?thesis by blast
qed

section \<open>Removal\<close>

text \<open>
  C3. On a well-formed table and a non-null key \<open>k\<close> with the key string \<open>ks\<close>,
  \<^verbatim>\<open>SymTable_remove\<close> compares by \<^verbatim>\<open>strcmp\<close>, which is 0 exactly when the two strings are
  the same bytes. If no binding has the key string \<open>ks\<close>, it returns 0 and leaves the
  memory as it was. Otherwise, with \<open>a\<close> the first binding from the head whose key string
  is \<open>ks\<close>, it returns 1; the chain is the old one without \<open>a\<close>, the other bindings in
  their order with their keys and values; the header's \<^verbatim>\<open>first\<close> (when \<open>a\<close> was the head)
  or the \<^verbatim>\<open>next\<close> of the predecessor of \<open>a\<close> now holds the successor of \<open>a\<close>; the count
  is one less; the binding and its key array are freed; and nothing else in memory changes.
\<close>

theorem C3_remove_first_match:
  assumes "table_inv m t as" and "heap m t = Some (Table T)"
    and "cstring_at (heap m) (Some k) = Some ks"
  shows "(\<forall>s1 s2. NUL \<in> set s1 \<longrightarrow> NUL \<in> set s2 \<longrightarrow>
            (strcmp s1 s2 = Inr 0 \<longleftrightarrow> c_str s1 = c_str s2))
     \<and> (first_match (heap m) as ks = None \<longrightarrow>
            SymTable_remove m (Some t) (Some k) = Some (Inr (0, m)))
     \<and> (\<forall>a. first_match (heap m) as ks = Some a \<longrightarrow>
          (\<exists>m' T' pre post ka.
            SymTable_remove m (Some t) (Some k) = Some (Inr (1, m'))
            \<and> as = pre @ a # post \<and> remove1 a as = pre @ post
            \<and> key_str (heap m) a = Some ks \<and> (\<forall>x \<in> set pre. key_str (heap m) x \<noteq> Some ks)
            \<and> table_inv m' t (pre @ post)
            \<and> heap m' t = Some (Table T') \<and> uiSize T' = uiSize T - 1
            \<and> first T' = (if pre = [] then next_of (heap m) a else first T)
            \<and> (pre \<noteq> [] \<longrightarrow> next_of (heap m') (last pre) = next_of (heap m) a)
            \<and> (\<forall>x \<in> set (pre @ post). key_addr (heap m') x = key_addr (heap m) x
                  \<and> key_str (heap m') x = key_str (heap m) x
                  \<and> value_of (heap m') x = value_of (heap m) x)
            \<and> key_addr (heap m) a = Some ka
            \<and> heap m' a = None \<and> heap m' ka = None \<and> avail m' = a # ka # avail m
            \<and> (\<forall>x. x \<noteq> t \<longrightarrow> x \<noteq> a \<longrightarrow> x \<noteq> ka \<longrightarrow> x \<notin> set pre \<longrightarrow> heap m' x = heap m x)))"
proof (intro conjI allI impI)
  fix s1 s2 assume "NUL \<in> set s1" "NUL \<in> set s2"
  then show "strcmp s1 s2 = Inr 0 \<longleftrightarrow> c_str s1 = c_str s2" by (rule strcmp_zero_iff)
next
  assume "first_match (heap m) as ks = None"
  with assms(1,3) show "SymTable_remove m (Some t) (Some k) = Some (Inr (0, m))"
    by (rule SymTable_remove_absent)
next
  fix a assume "first_match (heap m) as ks = Some a"
  with assms show "\<exists>m' T' pre post ka.
            SymTable_remove m (Some t) (Some k) = Some (Inr (1, m'))
            \<and> as = pre @ a # post \<and> remove1 a as = pre @ post
            \<and> key_str (heap m) a = Some ks \<and> (\<forall>x \<in> set pre. key_str (heap m) x \<noteq> Some ks)
            \<and> table_inv m' t (pre @ post)
            \<and> heap m' t = Some (Table T') \<and> uiSize T' = uiSize T - 1
            \<and> first T' = (if pre = [] then next_of (heap m) a else first T)
            \<and> (pre \<noteq> [] \<longrightarrow> next_of (heap m') (last pre) = next_of (heap m) a)
            \<and> (\<forall>x \<in> set (pre @ post). key_addr (heap m') x = key_addr (heap m) x
                  \<and> key_str (heap m') x = key_str (heap m) x
                  \<and> value_of (heap m') x = value_of (heap m) x)
            \<and> key_addr (heap m) a = Some ka
            \<and> heap m' a = None \<and> heap m' ka = None \<and> avail m' = a # ka # avail m
            \<and> (\<forall>x. x \<noteq> t \<longrightarrow> x \<noteq> a \<longrightarrow> x \<noteq> ka \<longrightarrow> x \<notin> set pre \<longrightarrow> heap m' x = heap m x)"
    by (rule SymTable_remove_found)
qed

theorem C3_remove_first_match_witness:
  "table_inv mem_ex 10 [11, 13]
   \<and> heap mem_ex 10 = Some (Table \<lparr>uiSize = 2, first = Some 11\<rparr>)
   \<and> cstring_at (heap mem_ex) (Some 3) = Some ''c''
   \<and> first_match (heap mem_ex) [11, 13] ''c'' = Some 13
   \<and> (\<exists>m' T' pre post ka.
         SymTable_remove mem_ex (Some 10) (Some 3) = Some (Inr (1, m'))
         \<and> [11, 13] = pre @ 13 # post \<and> remove1 13 [11, 13] = pre @ post
         \<and> key_str (heap mem_ex) 13 = Some ''c''
         \<and> (\<forall>x \<in> set pre. key_str (heap mem_ex) x \<noteq> Some ''c'')
         \<and> table_inv m' 10 (pre @ post)
         \<and> heap m' 10 = Some (Table T')
         \<and> uiSize T' = uiSize \<lparr>uiSize = 2, first = Some 11\<rparr> - 1
         \<and> first T' = (if pre = [] then next_of (heap mem_ex) 13
                        else first \<lparr>uiSize = 2, first = Some 11\<rparr>)
         \<and> (pre \<noteq> [] \<longrightarrow> next_of (heap m') (last pre) = next_of (heap mem_ex) 13)
         \<and> (\<forall>x \<in> set (pre @ post). key_addr (heap m') x = key_addr (heap mem_ex) x
               \<and> key_str (heap m') x = key_str (heap mem_ex) x
               \<and> value_of (heap m') x = value_of (heap mem_ex) x)
         \<and> key_addr (heap mem_ex) 13 = Some ka
         \<and> heap m' 13 = None \<and> heap m' ka = None \<and> avail m' = 13 # ka # avail mem_ex
         \<and> (\<forall>x. x \<noteq> 10 \<longrightarrow> x \<noteq> 13 \<longrightarrow> x \<noteq> ka \<longrightarrow> x \<notin> set pre \<longrightarrow>
                heap m' x = heap mem_ex x))
   \<and> SymTable_remove mem_ex (Some 10) (Some 3) =
        Some (Inr (1, mem_ex\<lparr>heap := (heap mem_ex)
            (11 \<mapsto> Bind \<lparr>key = Some 12, value_p = Some 100, next_p = None\<rparr>,
             10 \<mapsto> Table \<lparr>uiSize = 1, first = Some 11\<rparr>, 14 := None, 13 := None),
          avail := [13, 14, 20, 21, 22]\<rparr>))
   \<and> cstring_at (heap mem_ex) (Some 0) = Some ''a''
   \<and> first_match (heap mem_ex) [11, 13] ''a'' = None
   \<and> SymTable_remove mem_ex (Some 10) (Some 0) = Some (Inr (0, mem_ex))
   \<and> strcmp [CHR ''b'', NUL] [CHR ''B'', NUL] = Inr 1"
proof -
  have h1: "table_inv mem_ex 10 [11, 13]" by (simp add: ex_defs)
  have h2: "heap mem_ex 10 = Some (Table \<lparr>uiSize = 2, first = Some 11\<rparr>)"
    by (simp add: mem_ex_def)
  have h3: "cstring_at (heap mem_ex) (Some 3) = Some ''c''" by (simp add: ex_defs)
  have h4: "first_match (heap mem_ex) [11, 13] ''c'' = Some 13" by (simp add: ex_defs)
  have g3: "cstring_at (heap mem_ex) (Some 0) = Some ''a''" by (simp add: ex_defs)
  have g4: "first_match (heap mem_ex) [11, 13] ''a'' = None" by (simp add: ex_defs)
  have s: "strcmp [CHR ''b'', NUL] [CHR ''B'', NUL] = Inr 1" by (simp add: NUL_def)
  note a = C3_remove_first_match[OF h1 h2 h3, THEN conjunct2, THEN conjunct2, THEN spec,
      THEN mp, OF h4]
  note b = C3_remove_first_match[OF h1 h2 g3, THEN conjunct2, THEN conjunct1, THEN mp, OF g4]
  have e: "SymTable_remove mem_ex (Some 10) (Some 3) =
        Some (Inr (1, mem_ex\<lparr>heap := (heap mem_ex)
            (11 \<mapsto> Bind \<lparr>key = Some 12, value_p = Some 100, next_p = None\<rparr>,
             10 \<mapsto> Table \<lparr>uiSize = 1, first = Some 11\<rparr>, 14 := None, 13 := None),
          avail := [13, 14, 20, 21, 22]\<rparr>))"
    by (simp add: SymTable_remove_def remove_loop.simps unlink_def free_def Let_def
        table_at_def mem_ex_def bind_at_def key_strcmp_def str_at_def NUL_def)
  show ?thesis
    by (intro conjI) (rule h1 h2 h3 h4 g3 g4 s a b e)+
qed

section \<open>The empty key\<close>

text \<open>
  C10. The empty string is a key like any other. On a well-formed table and a key pointer
  to an array whose first byte is the terminator: if the empty string is not bound and two
  addresses are left to allocate, \<^verbatim>\<open>SymTable_put\<close> returns 1 and stores a one-byte copy (the
  terminator alone); then \<^verbatim>\<open>SymTable_contains\<close> returns 1, \<^verbatim>\<open>SymTable_get\<close> returns the
  value, and \<^verbatim>\<open>SymTable_remove\<close> returns 1 and leaves the old bindings. If the empty string
  is already bound, \<^verbatim>\<open>SymTable_put\<close> returns 0 and changes nothing.
\<close>

theorem C10_empty_string_key:
  assumes "table_inv m t as" and "heap m t = Some (Table T)"
    and "cstring_at (heap m) (Some k) = Some []"
  shows "(first_match (heap m) as [] = None \<longrightarrow> avail m = nb # nk # rest \<longrightarrow>
            (\<exists>m' m''. SymTable_put m (Some t) (Some k) v = Some (Inr (1, m'))
               \<and> heap m' nk = Some (Str [NUL])
               \<and> SymTable_contains m' (Some t) (Some k) = Some (Inr (1, m'))
               \<and> SymTable_get m' (Some t) (Some k) = Some (Inr (v, m'))
               \<and> SymTable_remove m' (Some t) (Some k) = Some (Inr (1, m''))
               \<and> table_inv m'' t as))
       \<and> (\<forall>a. first_match (heap m) as [] = Some a \<longrightarrow>
             SymTable_put m (Some t) (Some k) v = Some (Inr (0, m)))"
proof (intro conjI impI allI)
  assume fm: "first_match (heap m) as [] = None" and av: "avail m = nb # nk # rest"
  let ?m' = "put_result m t T [] v nb nk rest"
  have put: "SymTable_put m (Some t) (Some k) v = Some (Inr (1, ?m'))"
    using assms fm av by (rule SymTable_put_fresh)
  have inv': "table_inv ?m' t (nb # as)" using assms(1,2) av by (rule put_result_inv)
  have k': "cstring_at (heap ?m') (Some k) = Some []"
    using assms av by (rule put_result_new(8))
  have T': "heap ?m' t = Some (Table \<lparr>uiSize = uiSize T + 1, first = Some nb\<rparr>)"
    using assms av by (rule put_result_new(3))
  note fm' = first_match_put_result(1)[OF assms av, where v = v]
  have one: "heap ?m' nk = Some (Str [NUL])"
    using put_result_new(1)[OF assms av, where v = v] by simp
  have get: "SymTable_get ?m' (Some t) (Some k) = Some (Inr (v, ?m'))"
    using SymTable_get_ok[OF inv' k'] fm' put_result_new(5)[OF assms av, where v = v] by simp
  have con: "SymTable_contains ?m' (Some t) (Some k) = Some (Inr (1, ?m'))"
    using SymTable_contains_ok[OF inv' k'] fm' by simp
  from SymTable_remove_found[OF inv' T' k' fm'] obtain m'' where
    rem: "SymTable_remove ?m' (Some t) (Some k) = Some (Inr (1, m''))"
    and inv'': "table_inv m'' t (remove1 nb (nb # as))"
    by auto
  from inv'' have "table_inv m'' t as" by simp
  with put one con get rem show "\<exists>m' m''. SymTable_put m (Some t) (Some k) v = Some (Inr (1, m'))
               \<and> heap m' nk = Some (Str [NUL])
               \<and> SymTable_contains m' (Some t) (Some k) = Some (Inr (1, m'))
               \<and> SymTable_get m' (Some t) (Some k) = Some (Inr (v, m'))
               \<and> SymTable_remove m' (Some t) (Some k) = Some (Inr (1, m''))
               \<and> table_inv m'' t as" by blast
next
  fix a assume "first_match (heap m) as [] = Some a"
  with assms(1,3) show "SymTable_put m (Some t) (Some k) v = Some (Inr (0, m))"
    by (rule SymTable_put_dup)
qed

theorem C10_empty_string_key_witness:
  "table_inv mem_ex 10 [11, 13]
   \<and> heap mem_ex 10 = Some (Table \<lparr>uiSize = 2, first = Some 11\<rparr>)
   \<and> cstring_at (heap mem_ex) (Some 2) = Some []
   \<and> first_match (heap mem_ex) [11, 13] [] = None
   \<and> avail mem_ex = [20, 21, 22]
   \<and> (\<exists>m' m''. SymTable_put mem_ex (Some 10) (Some 2) (Some 7) = Some (Inr (1, m'))
         \<and> heap m' 21 = Some (Str [NUL])
         \<and> SymTable_contains m' (Some 10) (Some 2) = Some (Inr (1, m'))
         \<and> SymTable_get m' (Some 10) (Some 2) = Some (Inr (Some 7, m'))
         \<and> SymTable_remove m' (Some 10) (Some 2) = Some (Inr (1, m''))
         \<and> table_inv m'' 10 [11, 13])
   \<and> table_inv mem_ex2 10 [11]
   \<and> heap mem_ex2 10 = Some (Table \<lparr>uiSize = 1, first = Some 11\<rparr>)
   \<and> cstring_at (heap mem_ex2) (Some 2) = Some []
   \<and> first_match (heap mem_ex2) [11] [] = Some 11
   \<and> SymTable_put mem_ex2 (Some 10) (Some 2) (Some 7) = Some (Inr (0, mem_ex2))"
proof -
  have h1: "table_inv mem_ex 10 [11, 13]" by (simp add: ex_defs)
  have h2: "heap mem_ex 10 = Some (Table \<lparr>uiSize = 2, first = Some 11\<rparr>)"
    by (simp add: mem_ex_def)
  have h3: "cstring_at (heap mem_ex) (Some 2) = Some []" by (simp add: ex_defs)
  have h4: "first_match (heap mem_ex) [11, 13] [] = None" by (simp add: ex_defs)
  have h5: "avail mem_ex = [20, 21, 22]" by (simp add: mem_ex_def)
  have g1: "table_inv mem_ex2 10 [11]"
    by (simp add: mem_ex2_def table_inv_def key_str_def key_addr_def cstring_at_def c_str_def)
  have g2: "heap mem_ex2 10 = Some (Table \<lparr>uiSize = 1, first = Some 11\<rparr>)"
    by (simp add: mem_ex2_def)
  have g3: "cstring_at (heap mem_ex2) (Some 2) = Some []"
    by (simp add: mem_ex2_def cstring_at_def c_str_def)
  have g4: "first_match (heap mem_ex2) [11] [] = Some 11"
    by (simp add: mem_ex2_def first_match_def key_str_def key_addr_def cstring_at_def c_str_def)
  note a = C10_empty_string_key[OF h1 h2 h3, where v = "Some 7", THEN conjunct1,
      THEN mp, THEN mp, OF h4 h5]
  note b = C10_empty_string_key[OF g1 g2 g3, where v = "Some 7", THEN conjunct2,
      THEN spec, THEN mp, OF g4]
  show ?thesis
    by (intro conjI) (rule h1 h2 h3 h4 h5 g1 g2 g3 g4 a b)+
qed

section \<open>Invariants\<close>

text \<open>
  C4 (as amended). Start from any memory whose available addresses are distinct and hold
  no object, create a table with \<^verbatim>\<open>SymTable_new\<close>, and run any sequence of
  \<^verbatim>\<open>SymTable_put\<close> and \<^verbatim>\<open>SymTable_remove\<close> calls that all return. Then the table is
  well formed, no two bindings of its chain have the same key string, and the count that
  \<^verbatim>\<open>SymTable_getLength\<close> returns is the number of bindings of the chain modulo \<open>2 ^ 32\<close>:
  the number itself whenever the chain has fewer than \<open>2 ^ 32\<close> bindings.
\<close>

theorem C4_invariants_count_modulo_wrap:
  assumes "distinct (avail m0)" and "list_all (\<lambda>a. heap m0 a = None) (avail m0)"
    and "SymTable_new m0 = Inr (oSymTable, m1)"
    and "run m1 oSymTable ops = Some (Inr m)"
  shows "\<exists>t T as. oSymTable = Some t \<and> table_inv m t as \<and> heap m t = Some (Table T)
      \<and> chain (heap m) (first T) as
      \<and> distinct (map (key_str (heap m)) as)
      \<and> SymTable_getLength m oSymTable = Inr (uiSize T)
      \<and> unat (uiSize T) = length as mod 2 ^ 32"
proof -
  from new_reach_inv[OF assms(1,2,3)] obtain t where t: "oSymTable = Some t" "reach_inv m1 t"
    by blast
  from run_reach_inv[OF t(2)] assms(4) t(1) have "reach_inv m t" by simp
  then obtain as T where r: "table_inv m t as" "heap m t = Some (Table T)"
    "distinct (map (key_str (heap m)) as)" "uiSize T = of_nat (length as)"
    unfolding reach_inv_def by blast
  from r(1,2) have "chain (heap m) (first T) as" by (simp add: table_inv_def)
  moreover from r(2) t(1) have "SymTable_getLength m oSymTable = Inr (uiSize T)"
    by (simp add: SymTable_getLength_def table_at_def)
  moreover from r(4) have "unat (uiSize T) = length as mod 2 ^ 32"
    by (simp add: unat_of_nat)
  ultimately show ?thesis using t(1) r by blast
qed

theorem C4_invariants_count_modulo_wrap_witness:
  "distinct (avail mem_ex0) \<and> list_all (\<lambda>a. heap mem_ex0 a = None) (avail mem_ex0)
   \<and> SymTable_new mem_ex0 = Inr (Some 10, mem_ex0_new)
   \<and> run mem_ex0_new (Some 10) ops_ex = Some (Inr mem_ex0_final)
   \<and> (\<exists>t T as. Some 10 = Some t \<and> table_inv mem_ex0_final t as
        \<and> heap mem_ex0_final t = Some (Table T)
        \<and> chain (heap mem_ex0_final) (first T) as
        \<and> distinct (map (key_str (heap mem_ex0_final)) as)
        \<and> SymTable_getLength mem_ex0_final (Some 10) = Inr (uiSize T)
        \<and> unat (uiSize T) = length as mod 2 ^ 32)
   \<and> SymTable_getLength mem_ex0_final (Some 10) = Inr 1
   \<and> chain (heap mem_ex0_final) (Some 13) [13]"
proof -
  have h1: "distinct (avail mem_ex0)" by (simp add: mem_ex0_def)
  have h2: "list_all (\<lambda>a. heap mem_ex0 a = None) (avail mem_ex0)" by (simp add: mem_ex0_def)
  have h3: "SymTable_new mem_ex0 = Inr (Some 10, mem_ex0_new)"
    by (simp add: eval_defs mem_ex0_def mem_ex0_new_def)
  have h4: "run mem_ex0_new (Some 10) ops_ex = Some (Inr mem_ex0_final)"
    by (simp add: eval_defs ops_ex_def mem_ex0_new_def mem_ex0_final_def)
  have g1: "SymTable_getLength mem_ex0_final (Some 10) = Inr 1"
    by (simp add: eval_defs mem_ex0_final_def)
  have g2: "chain (heap mem_ex0_final) (Some 13) [13]"
    by (simp add: mem_ex0_final_def)
  note a = C4_invariants_count_modulo_wrap[OF h1 h2 h3 h4]
  show ?thesis
    by (intro conjI) (rule h1 h2 h3 h4 g1 g2 a)+
qed

text \<open>
  The count is not always the number of bindings: after \<open>2 ^ 32\<close> insertions of
  pairwise different keys, \<^verbatim>\<open>SymTable_getLength\<close> returns 0 and \<^verbatim>\<open>SymTable_map\<close> visits
  \<open>2 ^ 32\<close> bindings. The 32-bit \<^verbatim>\<open>unsigned int\<close> has wrapped around.
\<close>

theorem C4_count_wraps_counterexample:
  "length_and_visits (big_mem 32) (big_ops 32 (2 ^ 32)) = Some (0, 2 ^ 32)"
  using big_length_and_visits[of 32] by simp

section \<open>Traversal\<close>




end
